theory Spec2Isabelle
  imports Main "HOL-Library.Word"
begin

section \<open>The allocator of memalloc.c\<close>

text \<open>
  The program keeps every block it has carved from the heap in a singly linked list of
  headers (\<open>head\<close>, \<open>tail\<close>), each header sitting right before the payload it describes.
  Addresses and \<open>size_t\<close> values are 64-bit words, \<open>unsigned\<close> is a 32-bit word and the
  null pointer is the word 0 (LP64).  The lock calls of the source do not change the
  data and are left out: every operation is modelled as it runs alone.
\<close>

type_synonym addr = "64 word"
type_synonym size_t = "64 word"

text \<open>The struct inside \<open>union header\<close>: \<open>s.size\<close>, \<open>s.is_free\<close>, \<open>s.next\<close>.\<close>

record header =
  s_size :: size_t
  s_is_free :: "32 word"
  s_next :: addr

text \<open>
  \<open>sizeof(header_t)\<close>: the struct takes 8 + 4 (+ 4 padding) + 8 bytes; the \<open>ALIGN\<close>
  member is a \<open>char[16]\<close>, smaller than the struct, so the union has 24 bytes.
\<close>

definition sizeof_header_t :: size_t where
  "sizeof_header_t = 24"

text \<open>
  The memory of the process.  Headers are read and written a field at a time through
  \<open>hdr\<close> (the header stored at an address), payload bytes through \<open>bytes\<close>.  The
  globals \<open>head\<close> and \<open>tail\<close> are fields of the state.  \<open>brk\<close> is the program break;
  \<open>heap_start\<close> is the break at program start and \<open>heap_max\<close> the highest break the
  operating system will grant.

  Headers and payload bytes are kept apart: a write to payload bytes does not change a
  header.  In a well-formed heap (\<open>heap_ok\<close> below) headers and payloads do not overlap,
  and for a request that fits the region that \<open>calloc\<close> clears lies inside a payload.
  A store is an update of the map at any address; the model has no faults.
\<close>

record mem_state =
  head :: addr
  tail :: addr
  hdr :: "addr \<Rightarrow> header"
  bytes :: "addr \<Rightarrow> 8 word"
  brk :: addr
  heap_start :: addr
  heap_max :: addr

text \<open>
  The system call \<open>sbrk\<close> belongs to the C library, not to the repository; the
  program's \<open>size_t\<close> arguments reach it as a signed increment (\<open>intptr_t\<close>).  It
  moves the break by the increment and returns the previous break; with increment 0 it
  only reports the break.  It fails with \<open>(void * ) -1\<close>, changing nothing, when the
  new break would lie below the start of the heap or above what the system grants.
\<close>

definition sbrk :: "mem_state \<Rightarrow> 64 word \<Rightarrow> addr \<times> mem_state" where
  "sbrk s increment =
     (if increment = 0 then (brk s, s)
      else let new = uint (brk s) + sint increment
           in if new < uint (heap_start s) \<or> uint (heap_max s) < new then (- 1, s)
              else (brk s, s\<lparr>brk := word_of_int new\<rparr>))"

text \<open>
  \<open>memset(p, c, n)\<close> and \<open>memcpy(dst, src, n)\<close> on the payload bytes: the address \<open>a\<close>
  lies among the \<open>n\<close> bytes from \<open>p\<close> exactly when \<open>a - p < n\<close>.
\<close>

definition memset :: "mem_state \<Rightarrow> addr \<Rightarrow> 8 word \<Rightarrow> size_t \<Rightarrow> mem_state" where
  "memset s p c n = s\<lparr>bytes := (\<lambda>a. if a - p < n then c else bytes s a)\<rparr>"

definition memcpy :: "mem_state \<Rightarrow> addr \<Rightarrow> addr \<Rightarrow> size_t \<Rightarrow> mem_state" where
  "memcpy s dst src n =
     s\<lparr>bytes := (\<lambda>a. if a - dst < n then bytes s (src + (a - dst)) else bytes s a)\<rparr>"

subsection \<open>get_free_block\<close>

text \<open>
  The loop of \<open>get_free_block\<close>, started at \<open>curr\<close>.  It follows \<open>next\<close> links for as
  long as it takes, so on a cyclic chain without a fitting block it never returns:
  \<open>None\<close> stands for that, \<open>Some 0\<close> for the result \<open>NULL\<close>.
\<close>

partial_function (option) get_free_block_loop ::
  "(addr \<Rightarrow> header) \<Rightarrow> addr \<Rightarrow> size_t \<Rightarrow> addr option" where
  "get_free_block_loop m curr' size' =
     (if curr' = 0 then Some 0
      else if s_is_free (m curr') \<noteq> 0 \<and> s_size (m curr') \<ge> size' then Some curr'
      else get_free_block_loop m (s_next (m curr')) size')"

declare get_free_block_loop.simps [code]

definition get_free_block :: "mem_state \<Rightarrow> size_t \<Rightarrow> addr option" where
  "get_free_block s size' = get_free_block_loop (hdr s) (head s) size'"

subsection \<open>free\<close>

text \<open>The loop \<open>while (tmp && tmp->s.next != tail) tmp = tmp->s.next\<close>.\<close>

partial_function (option) free_loop ::
  "(addr \<Rightarrow> header) \<Rightarrow> addr \<Rightarrow> addr \<Rightarrow> addr option" where
  "free_loop m tmp tail' =
     (if tmp \<noteq> 0 \<and> s_next (m tmp) \<noteq> tail' then free_loop m (s_next (m tmp)) tail'
      else Some tmp)"

declare free_loop.simps [code]

definition set_next :: "mem_state \<Rightarrow> addr \<Rightarrow> addr \<Rightarrow> mem_state" where
  "set_next s p v = s\<lparr>hdr := (hdr s)(p := (hdr s p)\<lparr>s_next := v\<rparr>)\<rparr>"

definition set_is_free :: "mem_state \<Rightarrow> addr \<Rightarrow> 32 word \<Rightarrow> mem_state" where
  "set_is_free s p v = s\<lparr>hdr := (hdr s)(p := (hdr s p)\<lparr>s_is_free := v\<rparr>)\<rparr>"

definition set_size :: "mem_state \<Rightarrow> addr \<Rightarrow> size_t \<Rightarrow> mem_state" where
  "set_size s p v = s\<lparr>hdr := (hdr s)(p := (hdr s p)\<lparr>s_size := v\<rparr>)\<rparr>"

text \<open>
  The branch of \<open>free\<close> taken when the block ends at the program break: unlink the
  tail, then give the memory back.  The result of the second \<open>sbrk\<close> is ignored, as
  in the source.
\<close>

definition free_top :: "mem_state \<Rightarrow> addr \<Rightarrow> mem_state option" where
  "free_top s header =
     (if head s = tail s then
        Some (snd (sbrk (s\<lparr>head := 0, tail := 0\<rparr>)
                        (0 - s_size (hdr s header) - sizeof_header_t)))
      else
        case free_loop (hdr s) (head s) (tail s) of
          None \<Rightarrow> None
        | Some tmp \<Rightarrow>
            let s1 = (if tmp \<noteq> 0 then (set_next s tmp 0)\<lparr>tail := tmp\<rparr> else s)
            in Some (snd (sbrk s1 (0 - s_size (hdr s1 header) - sizeof_header_t))))"

definition free :: "mem_state \<Rightarrow> addr \<Rightarrow> mem_state option" where
  "free s block =
     (if block = 0 then Some s
      else
        let header = block - sizeof_header_t;
            programbreak = fst (sbrk s 0)
        in if block + s_size (hdr s header) = programbreak then free_top s header
           else Some (set_is_free s header 1))"

subsection \<open>malloc\<close>

text \<open>
  The part of \<open>malloc\<close> after a miss of the scan: ask the system for
  \<open>sizeof(header_t) + size\<close> bytes (computed in \<open>size_t\<close>, so the sum wraps), write the
  header at the old break and link it after the tail.
\<close>

definition malloc_extend :: "mem_state \<Rightarrow> size_t \<Rightarrow> addr \<times> mem_state" where
  "malloc_extend s size' =
     (let total_size = sizeof_header_t + size';
          (block, s1) = sbrk s total_size
      in if block = - 1 then (0, s1)
         else
           let header = block;
               s2 = set_size s1 header size';
               s3 = set_is_free s2 header 0;
               s4 = set_next s3 header 0;
               s5 = (if head s4 = 0 then s4\<lparr>head := header\<rparr> else s4);
               s6 = (if tail s5 \<noteq> 0 then set_next s5 (tail s5) header else s5)
           in (header + sizeof_header_t, s6\<lparr>tail := header\<rparr>))"

definition malloc :: "mem_state \<Rightarrow> size_t \<Rightarrow> (addr \<times> mem_state) option" where
  "malloc s size' =
     (if size' = 0 then Some (0, s)
      else
        case get_free_block s size' of
          None \<Rightarrow> None
        | Some header \<Rightarrow>
            if header \<noteq> 0 then Some (header + sizeof_header_t, set_is_free s header 0)
            else Some (malloc_extend s size'))"

subsection \<open>calloc and realloc\<close>

definition calloc :: "mem_state \<Rightarrow> size_t \<Rightarrow> size_t \<Rightarrow> (addr \<times> mem_state) option" where
  "calloc s num nsize =
     (if num = 0 \<or> nsize = 0 then Some (0, s)
      else
        let size' = num * nsize
        in if nsize \<noteq> size' div num then Some (0, s)
           else
             case malloc s size' of
               None \<Rightarrow> None
             | Some (block, s1) \<Rightarrow>
                 if block = 0 then Some (0, s1)
                 else Some (block, memset s1 block 0 size'))"

definition realloc :: "mem_state \<Rightarrow> addr \<Rightarrow> size_t \<Rightarrow> (addr \<times> mem_state) option" where
  "realloc s block size' =
     (if block = 0 \<or> size' = 0 then malloc s size'
      else
        let header = block - sizeof_header_t
        in if s_size (hdr s header) \<ge> size' then Some (block, s)
           else
             case malloc s size' of
               None \<Rightarrow> None
             | Some (ret, s1) \<Rightarrow>
                 if ret \<noteq> 0 then
                   (case free (memcpy s1 ret block (s_size (hdr s1 header))) block of
                      None \<Rightarrow> None
                    | Some s2 \<Rightarrow> Some (ret, s2))
                 else Some (ret, s1))"

subsection \<open>The registry as a list, and the shape of a well-formed heap\<close>

text \<open>
  \<open>chain m p bs\<close>: following \<open>next\<close> from the pointer \<open>p\<close> visits exactly the headers
  \<open>bs\<close>, in this order, and then reaches \<open>NULL\<close>.
\<close>

fun chain :: "(addr \<Rightarrow> header) \<Rightarrow> addr \<Rightarrow> addr list \<Rightarrow> bool" where
  "chain m p [] = (p = 0)"
| "chain m p (b # bs) = (p \<noteq> 0 \<and> p = b \<and> chain m (s_next (m b)) bs)"

text \<open>
  \<open>lseg m p bs q\<close>: the same walk, ending at the pointer \<open>q\<close> instead of \<open>NULL\<close>.
\<close>

fun lseg :: "(addr \<Rightarrow> header) \<Rightarrow> addr \<Rightarrow> addr list \<Rightarrow> addr \<Rightarrow> bool" where
  "lseg m p [] q = (p = q)"
| "lseg m p (b # bs) q = (p \<noteq> 0 \<and> p = b \<and> lseg m (s_next (m b)) bs q)"

text \<open>
  \<open>layout m a bs top\<close>: the blocks \<open>bs\<close> lie one after the other from address \<open>a\<close>
  up to \<open>top\<close>, each one a header followed by as many payload bytes as the header
  records.  Positions are integers, so nothing wraps around.
\<close>

fun layout :: "(addr \<Rightarrow> header) \<Rightarrow> int \<Rightarrow> addr list \<Rightarrow> int \<Rightarrow> bool" where
  "layout m a [] top' = (a = top')"
| "layout m a (b # bs) top' =
     (uint b = a \<and> layout m (a + uint sizeof_header_t + uint (s_size (m b))) bs top')"

text \<open>
  A well-formed heap whose registry is \<open>bs\<close>: the chain from \<open>head\<close> is \<open>bs\<close>,
  \<open>tail\<close> is its last entry, the blocks fill the heap from its start to the break,
  and the heap lies in the lower half of the address space, away from \<open>NULL\<close>.
\<close>

definition heap_ok :: "mem_state \<Rightarrow> addr list \<Rightarrow> bool" where
  "heap_ok s bs \<longleftrightarrow>
     chain (hdr s) (head s) bs \<and>
     tail s = (if bs = [] then 0 else last bs) \<and>
     layout (hdr s) (uint (heap_start s)) bs (uint (brk s)) \<and>
     heap_start s \<noteq> 0 \<and>
     brk s \<le> heap_max s \<and>
     uint (heap_max s) < 2 ^ 63"

text \<open>A request whose total size, header included, is a positive \<open>intptr_t\<close>.\<close>

definition request_fits :: "size_t \<Rightarrow> bool" where
  "request_fits size' \<longleftrightarrow> uint sizeof_header_t + uint size' < 2 ^ 63"

text \<open>The test of \<open>get_free_block\<close> on one header.\<close>

definition is_fit :: "(addr \<Rightarrow> header) \<Rightarrow> size_t \<Rightarrow> addr \<Rightarrow> bool" where
  "is_fit m size' b \<longleftrightarrow> s_is_free (m b) \<noteq> 0 \<and> size' \<le> s_size (m b)"

text \<open>The payload of the block with header \<open>b\<close> starts right after the header.\<close>

definition payload :: "addr \<Rightarrow> addr" where
  "payload b = b + sizeof_header_t"

subsection \<open>Example heaps\<close>

text \<open>An empty heap at address 4096 that may grow up to address 8192.\<close>

definition heap0 :: mem_state where
  "heap0 = \<lparr>head = 0, tail = 0,
            hdr = (\<lambda>_. \<lparr>s_size = 0, s_is_free = 0, s_next = 0\<rparr>),
            bytes = (\<lambda>_. 0), brk = 4096, heap_start = 4096, heap_max = 8192\<rparr>"

text \<open>
  A heap with two allocated blocks, of 64 and of 128 bytes, and the heap that is left
  when the first of them has been released.
\<close>

definition heap2 :: mem_state where
  "heap2 = \<lparr>head = 4096, tail = 4184,
            hdr = (\<lambda>_. \<lparr>s_size = 0, s_is_free = 0, s_next = 0\<rparr>)
                  (4096 := \<lparr>s_size = 64, s_is_free = 0, s_next = 4184\<rparr>,
                   4184 := \<lparr>s_size = 128, s_is_free = 0, s_next = 0\<rparr>),
            bytes = (\<lambda>_. 0)(4120 := 65, 4121 := 66),
            brk = 4336, heap_start = 4096, heap_max = 8192\<rparr>"

definition heap1 :: mem_state where
  "heap1 = set_is_free heap2 4096 1"

text \<open>The same two blocks with the second one marked free and the first one in use.\<close>

definition heap3 :: mem_state where
  "heap3 = set_is_free heap2 4184 1"

text \<open>
  Three states met when the sum \<open>sizeof(header_t) + size\<close> in \<open>malloc\<close> wraps around,
  starting from the empty heap: after \<open>malloc(SIZE_MAX)\<close>; after \<open>malloc(SIZE_MAX - 23)\<close>;
  and after \<open>malloc(1)\<close> following that.
\<close>

definition heap_short :: mem_state where
  "heap_short = heap0\<lparr>head := 4096, tail := 4096, brk := 4119,
     hdr := (hdr heap0)(4096 := \<lparr>s_size = - 1, s_is_free = 0, s_next = 0\<rparr>)\<rparr>"

definition heap_wrapped :: mem_state where
  "heap_wrapped = heap0\<lparr>head := 4096, tail := 4096,
     hdr := (hdr heap0)(4096 := \<lparr>s_size = - 24, s_is_free = 0, s_next = 0\<rparr>)\<rparr>"

definition heap_looped :: mem_state where
  "heap_looped = heap0\<lparr>head := 4096, tail := 4096, brk := 4121,
     hdr := (hdr heap0)(4096 := \<lparr>s_size = 1, s_is_free = 0, s_next = 4096\<rparr>)\<rparr>"

text \<open>
  Two states met when \<open>realloc\<close> is asked to grow the first block of \<open>heap2\<close> to
  \<open>SIZE_MAX - 175\<close> bytes: after the call of \<open>malloc\<close> inside it, and at its return.
\<close>

definition heap_mid :: mem_state where
  "heap_mid = heap2\<lparr>tail := 4336, brk := 4184,
     hdr := (hdr heap2)(4336 := \<lparr>s_size = - 176, s_is_free = 0, s_next = 0\<rparr>,
                        4184 := \<lparr>s_size = 128, s_is_free = 0, s_next = 4336\<rparr>)\<rparr>"

definition heap_lost :: mem_state where
  "heap_lost = (memcpy heap_mid 4360 4120 64)\<lparr>tail := 4184, brk := 4096,
     hdr := (hdr heap_mid)(4184 := \<lparr>s_size = 128, s_is_free = 0, s_next = 0\<rparr>)\<rparr>"

section \<open>Facts about chains, the two loops and the layout\<close>

subsection \<open>Chains\<close>

lemma chain_lseg: "chain m p bs = lseg m p bs 0"
  by (induction bs arbitrary: p) auto

lemma lseg_append: "lseg m p (xs @ ys) q = (\<exists>r. lseg m p xs r \<and> lseg m r ys q)"
  by (induction xs arbitrary: p) simp_all

lemma lseg_cong:
  "\<forall>b\<in>set bs. s_next (m' b) = s_next (m b) \<Longrightarrow> lseg m' p bs q = lseg m p bs q"
  by (induction bs arbitrary: p) simp_all

lemma chain_cong:
  "\<forall>b\<in>set bs. s_next (m' b) = s_next (m b) \<Longrightarrow> chain m' p bs = chain m p bs"
  by (simp only: chain_lseg lseg_cong)

lemma chain_nonzero: "chain m p bs \<Longrightarrow> 0 \<notin> set bs"
  by (induction bs arbitrary: p) auto

lemma chain_unique: "chain m p bs \<Longrightarrow> chain m p cs \<Longrightarrow> bs = cs"
proof (induction bs arbitrary: p cs)
  case Nil
  then show ?case by (cases cs) auto
next
  case (Cons b bs)
  then show ?case by (cases cs) auto
qed

lemma chain_suffix: "chain m p (xs @ b # ys) \<Longrightarrow> chain m b (b # ys)"
  by (induction xs arbitrary: p) auto

lemma chain_distinct: "chain m p bs \<Longrightarrow> distinct bs"
proof (induction bs arbitrary: p)
  case Nil
  then show ?case by simp
next
  case (Cons b bs)
  have "b \<notin> set bs"
  proof
    assume "b \<in> set bs"
    then obtain xs ys where split: "bs = xs @ b # ys"
      by (auto simp: in_set_conv_decomp)
    from Cons.prems have tl: "chain m (s_next (m b)) bs" and "chain m b (b # bs)" by auto
    from tl split have "chain m b (b # ys)" using chain_suffix by blast
    with \<open>chain m b (b # bs)\<close> have "b # ys = b # bs" using chain_unique by blast
    with split show False by simp
  qed
  moreover from Cons.prems have "chain m (s_next (m b)) bs" by simp
  then have "distinct bs" by (rule Cons.IH)
  ultimately show ?case by simp
qed

lemma get_free_block_loop_step:
  "b \<noteq> 0 \<Longrightarrow> get_free_block_loop m b size' =
     (if is_fit m size' b then Some b else get_free_block_loop m (s_next (m b)) size')"
  by (subst get_free_block_loop.simps) (simp add: is_fit_def)

lemma get_free_block_loop_chain:
  "chain m p bs \<Longrightarrow>
   get_free_block_loop m p size' = Some (case find (is_fit m size') bs of None \<Rightarrow> 0 | Some h \<Rightarrow> h)"
proof (induction bs arbitrary: p)
  case Nil
  then show ?case by (simp add: get_free_block_loop.simps)
next
  case (Cons b bs)
  from Cons.prems have p: "p = b" "b \<noteq> 0" and rest: "chain m (s_next (m b)) bs" by auto
  show ?case
    unfolding p using Cons.IH [OF rest] by (simp add: get_free_block_loop_step [OF p(2)])
qed

lemma free_loop_stop': "\<not> (p \<noteq> 0 \<and> s_next (m p) \<noteq> t) \<Longrightarrow> free_loop m p t = Some p"
  by (subst free_loop.simps) (simp only: if_not_P if_False)

lemma free_loop_stop: "p = 0 \<or> s_next (m p) = t \<Longrightarrow> free_loop m p t = Some p"
  by (rule free_loop_stop') blast

lemma free_loop_go:
  "p \<noteq> 0 \<Longrightarrow> s_next (m p) \<noteq> t \<Longrightarrow> free_loop m p t = free_loop m (s_next (m p)) t"
  by (subst free_loop.simps) simp

lemma free_loop_chain_total: "chain m p bs \<Longrightarrow> \<exists>r. free_loop m p t = Some r"
proof (induction bs arbitrary: p)
  case Nil
  then have "p = 0" by simp
  then show ?case using free_loop_stop [of p m t] by blast
next
  case (Cons b bs)
  from Cons.prems have rest: "chain m (s_next (m p)) bs" by auto
  from Cons.IH [OF rest] obtain r where r: "free_loop m (s_next (m p)) t = Some r" by blast
  show ?case
  proof (cases "p \<noteq> 0 \<and> s_next (m p) \<noteq> t")
    case True
    then show ?thesis using free_loop_go [of p m t] r by simp
  next
    case False
    then show ?thesis using free_loop_stop [of p m t] by blast
  qed
qed

lemma free_loop_prev:
  "lseg m p (xs @ [x]) t \<Longrightarrow> t \<notin> set (xs @ [x]) \<Longrightarrow> free_loop m p t = Some x"
proof (induction xs arbitrary: p)
  case Nil
  then have "p = x" "s_next (m p) = t" by auto
  then show ?case using free_loop_stop [of p m t] by simp
next
  case (Cons y ys)
  from Cons.prems have p: "p = y" "p \<noteq> 0" and rest: "lseg m (s_next (m p)) (ys @ [x]) t"
    and out: "t \<notin> set (ys @ [x])" by auto
  from rest have "s_next (m p) \<in> set (ys @ [x])" by (cases ys) auto
  with out have "s_next (m p) \<noteq> t" by auto
  with p Cons.IH [OF rest out] show ?case using free_loop_go [of p m t] by simp
qed

subsection \<open>Word arithmetic and the layout\<close>

lemma sint_of_int64: "- (2 ^ 63) \<le> k \<Longrightarrow> k < 2 ^ 63 \<Longrightarrow> sint (word_of_int k :: 64 word) = k"
  by (simp add: int_word_sint)

lemma uint_of_int64: "0 \<le> k \<Longrightarrow> k < 2 ^ 64 \<Longrightarrow> uint (word_of_int k :: 64 word) = k"
  by (simp add: uint_word_of_int)

lemma uint_lt64: "uint (w :: 64 word) < 2 ^ 64"
  using uint_lt2p [of w] by simp

lemma p63: "(2::int) ^ 63 = 9223372036854775808"
  by simp

lemma sint_add_small:
  "uint (a :: 64 word) + uint (b :: 64 word) < 2 ^ 63 \<Longrightarrow> sint (a + b) = uint a + uint b"
proof -
  assume small: "uint a + uint b < 2 ^ 63"
  have "a + b = word_of_int (uint a + uint b)" by simp
  moreover have "- (2 ^ 63) \<le> uint a + uint b"
    using uint_ge_0 [of a] uint_ge_0 [of b] unfolding p63 by linarith
  ultimately show ?thesis using small sint_of_int64 by metis
qed

lemma sint_neg_small:
  "uint (a :: 64 word) + uint (b :: 64 word) < 2 ^ 63 \<Longrightarrow> sint (0 - a - b) = - (uint a + uint b)"
proof -
  assume small: "uint a + uint b < 2 ^ 63"
  have "0 - a - b = word_of_int (- (uint a + uint b))" by simp
  moreover have "- (uint a + uint b) < 2 ^ 63"
    using uint_ge_0 [of a] uint_ge_0 [of b] unfolding p63 by linarith
  moreover have "- (2 ^ 63) \<le> - (uint a + uint b)" using small unfolding p63 by linarith
  ultimately show ?thesis using sint_of_int64 by metis
qed

lemma uint_add_small:
  "uint (a :: 64 word) + uint (b :: 64 word) < 2 ^ 64 \<Longrightarrow> uint (a + b) = uint a + uint b"
  using uint_add_lem [of a b] by simp

lemma uint_sizeof: "uint sizeof_header_t = 24"
  by (simp add: sizeof_header_t_def)

lemma layout_le: "layout m a bs t \<Longrightarrow> a \<le> t"
proof (induction bs arbitrary: a)
  case Nil
  then show ?case by simp
next
  case (Cons b bs)
  then have "a + uint sizeof_header_t + uint (s_size (m b)) \<le> t" by simp
  then show ?case using uint_ge_0 [of "s_size (m b)"] unfolding uint_sizeof by linarith
qed

lemma layout_append:
  "layout m a (xs @ ys) t = (\<exists>mid. layout m a xs mid \<and> layout m mid ys t)"
  by (induction xs arbitrary: a) simp_all

lemma layout_cong:
  "\<forall>b\<in>set bs. s_size (m' b) = s_size (m b) \<Longrightarrow> layout m' a bs t = layout m a bs t"
  by (induction bs arbitrary: a) simp_all

lemma layout_bounds:
  "layout m a bs t \<Longrightarrow> b \<in> set bs \<Longrightarrow>
   a \<le> uint b \<and> uint b + uint sizeof_header_t + uint (s_size (m b)) \<le> t"
proof (induction bs arbitrary: a)
  case Nil
  then show ?case by simp
next
  case (Cons c bs)
  from Cons.prems have here: "uint c = a"
    and rest: "layout m (a + uint sizeof_header_t + uint (s_size (m c))) bs t" by simp_all
  show ?case
  proof (cases "b = c")
    case True
    with here layout_le [OF rest] show ?thesis by simp
  next
    case False
    with Cons.prems have "b \<in> set bs" by simp
    from Cons.IH [OF rest this] uint_ge_0 [of "s_size (m c)"]
    show ?thesis unfolding uint_sizeof by linarith
  qed
qed

lemma layout_inner_below:
  "layout m a (xs @ b # y # ys) t \<Longrightarrow> uint b + uint sizeof_header_t + uint (s_size (m b)) < t"
proof -
  assume "layout m a (xs @ b # y # ys) t"
  then obtain mid where "layout m mid (b # y # ys) t" by (auto simp: layout_append)
  then have "layout m (uint b + uint sizeof_header_t + uint (s_size (m b))) (y # ys) t" by simp
  then have "layout m (uint b + uint sizeof_header_t + uint (s_size (m b)) + uint sizeof_header_t + uint (s_size (m y))) ys t" by simp
  from layout_le [OF this] uint_ge_0 [of "s_size (m y)"] show ?thesis
    unfolding uint_sizeof by linarith
qed

lemma layout_last_top:
  "layout m a (xs @ [b]) t \<Longrightarrow> uint b + uint sizeof_header_t + uint (s_size (m b)) = t"
  by (auto simp: layout_append)

lemma layout_butlast: "layout m a (xs @ [b]) t \<Longrightarrow> layout m a xs (uint b)"
  by (auto simp: layout_append)

lemma layout_snoc:
  "layout m a xs (uint b) \<Longrightarrow>
   layout m a (xs @ [b]) (uint b + uint sizeof_header_t + uint (s_size (m b)))"
  by (auto simp: layout_append)

subsection \<open>The scan of the registry\<close>

lemma find_first: "\<forall>x\<in>set xs. \<not> P x \<Longrightarrow> P h \<Longrightarrow> find P (xs @ h # ys) = Some h"
  by (induction xs) simp_all

lemma get_free_block_first:
  assumes "chain (hdr s) (head s) (xs @ h # ys)"
    and "\<forall>x\<in>set xs. \<not> is_fit (hdr s) size' x" and "is_fit (hdr s) size' h"
  shows "get_free_block s size' = Some h"
  using assms by (simp add: get_free_block_def get_free_block_loop_chain find_first)

lemma get_free_block_none:
  assumes "chain (hdr s) (head s) bs" and "\<forall>x\<in>set bs. \<not> is_fit (hdr s) size' x"
  shows "get_free_block s size' = Some 0"
proof -
  from assms(2) have "find (is_fit (hdr s) size') bs = None" by (simp add: find_None_iff)
  with assms(1) show ?thesis by (simp add: get_free_block_def get_free_block_loop_chain)
qed

lemma hdr_set_is_free: "hdr (set_is_free s h v) = (hdr s)(h := (hdr s h)\<lparr>s_is_free := v\<rparr>)"
  by (simp add: set_is_free_def)

lemma chain_set_is_free: "chain (hdr (set_is_free s h v)) p bs = chain (hdr s) p bs"
  by (rule chain_cong) (simp add: hdr_set_is_free)

subsection \<open>Well-formed heaps\<close>

lemma p64: "(2::int) ^ 64 = 18446744073709551616"
  by simp

lemma heap_ok_member:
  assumes "heap_ok s bs" and "h \<in> set bs"
  shows "h \<noteq> 0" and "uint (heap_start s) \<le> uint h"
    and "uint h + 24 + uint (s_size (hdr s h)) \<le> uint (brk s)"
    and "uint (brk s) < 2 ^ 63"
proof -
  from assms(1) have ch: "chain (hdr s) (head s) bs"
    and lay: "layout (hdr s) (uint (heap_start s)) bs (uint (brk s))"
    and le: "brk s \<le> heap_max s" and mx: "uint (heap_max s) < 2 ^ 63"
    by (simp_all add: heap_ok_def)
  from chain_nonzero [OF ch] assms(2) show "h \<noteq> 0" by auto
  from layout_bounds [OF lay assms(2)]
  show "uint (heap_start s) \<le> uint h"
    and "uint h + 24 + uint (s_size (hdr s h)) \<le> uint (brk s)"
    by (simp_all add: uint_sizeof)
  from le have "uint (brk s) \<le> uint (heap_max s)" by (simp add: word_le_def)
  with mx show "uint (brk s) < 2 ^ 63" by linarith
qed

lemma heap_ok_chain: "heap_ok s bs \<Longrightarrow> chain (hdr s) (head s) bs"
  by (simp add: heap_ok_def)

lemma heap_ok_distinct: "heap_ok s bs \<Longrightarrow> distinct bs"
  using chain_distinct heap_ok_chain by blast

lemma heap_ok_brk:
  assumes "heap_ok s bs"
  shows "uint (heap_start s) \<le> uint (brk s)" and "uint (brk s) \<le> uint (heap_max s)"
    and "uint (heap_max s) < 2 ^ 63" and "0 < uint (heap_start s)"
proof -
  from assms have lay: "layout (hdr s) (uint (heap_start s)) bs (uint (brk s))"
    and le: "brk s \<le> heap_max s" and mx: "uint (heap_max s) < 2 ^ 63"
    and nz: "heap_start s \<noteq> 0"
    by (simp_all add: heap_ok_def)
  from layout_le [OF lay] show "uint (heap_start s) \<le> uint (brk s)" .
  from le show "uint (brk s) \<le> uint (heap_max s)" by (simp add: word_le_def)
  from mx show "uint (heap_max s) < 2 ^ 63" .
  from nz have "uint (heap_start s) \<noteq> 0" by (simp add: uint_0_iff)
  then show "0 < uint (heap_start s)" using uint_ge_0 [of "heap_start s"] by linarith
qed

lemma payload_uint:
  assumes "uint h + 24 + uint sz \<le> B" and "B < 2 ^ 63"
  shows "uint (payload h) = uint h + 24" and "uint (payload h + sz) = uint h + 24 + uint sz"
proof -
  have "uint h + uint sizeof_header_t < 2 ^ 64"
    using assms uint_ge_0 [of sz] unfolding uint_sizeof p63 p64 by linarith
  from uint_add_small [OF this] show a: "uint (payload h) = uint h + 24"
    by (simp add: payload_def uint_sizeof)
  have "uint (payload h) + uint sz < 2 ^ 64"
    using assms unfolding a p63 p64 by linarith
  from uint_add_small [OF this] a show "uint (payload h + sz) = uint h + 24 + uint sz"
    by simp
qed

lemma payload_header: "payload h - sizeof_header_t = h"
  by (simp add: payload_def)

lemma payload_nonzero:
  assumes "heap_ok s bs" and "h \<in> set bs"
  shows "payload h \<noteq> 0"
proof -
  from payload_uint(1) [OF heap_ok_member(3,4) [OF assms]]
  have "uint (payload h) = uint h + 24" .
  then have "uint (payload h) \<noteq> 0" using uint_ge_0 [of h] by linarith
  then show ?thesis by (simp add: uint_0_iff)
qed

lemma top_block_iff:
  assumes "heap_ok s bs" and "h \<in> set bs"
  shows "(payload h + s_size (hdr s h) = brk s) = (\<exists>xs. bs = xs @ [h])"
proof -
  note mem = heap_ok_member [OF assms]
  from assms(1) have lay: "layout (hdr s) (uint (heap_start s)) bs (uint (brk s))"
    by (simp add: heap_ok_def)
  have end_eq: "uint (payload h + s_size (hdr s h)) = uint h + 24 + uint (s_size (hdr s h))"
    by (rule payload_uint(2) [OF mem(3,4)])
  from assms(2) obtain xs ys where split: "bs = xs @ h # ys"
    by (auto simp: in_set_conv_decomp)
  show ?thesis
  proof (cases ys)
    case Nil
    with split lay have "uint h + 24 + uint (s_size (hdr s h)) = uint (brk s)"
      using layout_last_top [of "hdr s" "uint (heap_start s)" xs h "uint (brk s)"]
      by (simp add: uint_sizeof)
    with end_eq have "payload h + s_size (hdr s h) = brk s"
      by (simp add: word_uint_eq_iff)
    with Nil split show ?thesis by simp
  next
    case (Cons y zs)
    with split lay have "uint h + 24 + uint (s_size (hdr s h)) < uint (brk s)"
      using layout_inner_below [of "hdr s" "uint (heap_start s)" xs h y zs "uint (brk s)"]
      by (simp add: uint_sizeof)
    with end_eq have "payload h + s_size (hdr s h) \<noteq> brk s"
      by (auto simp: word_uint_eq_iff)
    moreover have "\<not> (\<exists>xs. bs = xs @ [h])"
    proof
      assume "\<exists>xs. bs = xs @ [h]"
      then have "last bs = h" by auto
      with split Cons have "h \<in> set (y # zs)" using last_in_set [of "y # zs"] by simp
      moreover from assms(1) have "distinct bs" by (rule heap_ok_distinct)
      ultimately show False using split Cons by simp
    qed
    ultimately show ?thesis by simp
  qed
qed

subsection \<open>The system call and the simple cases of free\<close>

lemma sbrk_zero: "sbrk s 0 = (brk s, s)"
  by (simp add: sbrk_def)

lemma sbrk_cases: "sbrk s i = (- 1, s) \<or> (\<exists>b. sbrk s i = (brk s, s\<lparr>brk := b\<rparr>))"
proof (cases "i = 0")
  case True
  have "s = s\<lparr>brk := brk s\<rparr>" by simp
  with True show ?thesis using sbrk_zero [of s] by metis
next
  case False
  then show ?thesis by (auto simp: sbrk_def Let_def)
qed

lemma sbrk_shrink:
  assumes pos: "0 < uint a + uint b" and small: "uint a + uint b < 2 ^ 63"
    and lo: "uint (heap_start s) \<le> uint (brk s) - (uint a + uint b)"
    and hi: "uint (brk s) \<le> uint (heap_max s)"
  shows "sbrk s (0 - a - b) =
         (brk s, s\<lparr>brk := word_of_int (uint (brk s) - (uint a + uint b))\<rparr>)"
proof -
  have si: "sint (0 - a - b) = - (uint a + uint b)" by (rule sint_neg_small [OF small])
  with pos have "sint (0 - a - b) \<noteq> 0" by linarith
  then have nz: "0 - a - b \<noteq> 0" by auto
  have "\<not> (uint (brk s) + sint (0 - a - b) < uint (heap_start s) \<or>
            uint (heap_max s) < uint (brk s) + sint (0 - a - b))"
    using lo hi pos unfolding si by linarith
  with nz show ?thesis unfolding sbrk_def Let_def si by simp
qed

lemma sbrk_grow:
  assumes fits: "request_fits size'"
    and lo: "uint (heap_start s) \<le> uint (brk s)"
    and hi: "uint (brk s) + 24 + uint size' \<le> uint (heap_max s)"
  shows "sbrk s (sizeof_header_t + size') =
         (brk s, s\<lparr>brk := word_of_int (uint (brk s) + 24 + uint size')\<rparr>)"
proof -
  from fits have small: "uint sizeof_header_t + uint size' < 2 ^ 63"
    by (simp add: request_fits_def)
  have si: "sint (sizeof_header_t + size') = 24 + uint size'"
    using sint_add_small [OF small] by (simp add: uint_sizeof)
  then have "sint (sizeof_header_t + size') \<noteq> 0" using uint_ge_0 [of size'] by linarith
  then have nz: "sizeof_header_t + size' \<noteq> 0" by auto
  have "\<not> (uint (brk s) + sint (sizeof_header_t + size') < uint (heap_start s) \<or>
            uint (heap_max s) < uint (brk s) + sint (sizeof_header_t + size'))"
    using lo hi uint_ge_0 [of size'] unfolding si by linarith
  moreover have "uint (brk s) + (24 + uint size') = uint (brk s) + 24 + uint size'" by simp
  ultimately show ?thesis using nz unfolding sbrk_def Let_def si by simp
qed

lemma sbrk_grow_fail:
  assumes fits: "request_fits size'"
    and hi: "uint (heap_max s) < uint (brk s) + 24 + uint size'"
  shows "sbrk s (sizeof_header_t + size') = (- 1, s)"
proof -
  from fits have small: "uint sizeof_header_t + uint size' < 2 ^ 63"
    by (simp add: request_fits_def)
  have si: "sint (sizeof_header_t + size') = 24 + uint size'"
    using sint_add_small [OF small] by (simp add: uint_sizeof)
  then have "sint (sizeof_header_t + size') \<noteq> 0" using uint_ge_0 [of size'] by linarith
  then have nz: "sizeof_header_t + size' \<noteq> 0" by auto
  have "uint (heap_max s) < uint (brk s) + sint (sizeof_header_t + size')"
    using hi unfolding si by linarith
  with nz show ?thesis unfolding sbrk_def Let_def by simp
qed

lemma hdr_set_next: "hdr (set_next s p v) = (hdr s)(p := (hdr s p)\<lparr>s_next := v\<rparr>)"
  by (simp add: set_next_def)

lemma hdr_set_size: "hdr (set_size s p v) = (hdr s)(p := (hdr s p)\<lparr>s_size := v\<rparr>)"
  by (simp add: set_size_def)

lemma layout_set_is_free: "layout (hdr (set_is_free s h v)) a bs t = layout (hdr s) a bs t"
  by (rule layout_cong) (simp add: hdr_set_is_free)

lemma layout_set_next: "layout (hdr (set_next s h v)) a bs t = layout (hdr s) a bs t"
  by (rule layout_cong) (simp add: hdr_set_next)

lemma heap_ok_set_is_free: "heap_ok s bs \<Longrightarrow> heap_ok (set_is_free s h v) bs"
  unfolding heap_ok_def chain_set_is_free layout_set_is_free
  by (simp add: set_is_free_def)

lemma free_not_top:
  assumes "heap_ok s bs" and "h \<in> set bs" and "payload h + s_size (hdr s h) \<noteq> brk s"
  shows "free s (payload h) = Some (set_is_free s h 1)"
  using assms(3) payload_nonzero [OF assms(1,2)]
  by (simp add: free_def payload_header sbrk_zero)

lemma free_at_top: 
  assumes "payload h \<noteq> 0" and "payload h + s_size (hdr s h) = brk s"
  shows "free s (payload h) = free_top s h"
  using assms by (simp add: free_def payload_header sbrk_zero)

subsection \<open>Releasing the block at the top of the heap\<close>

lemma lseg_snoc: "lseg m p (ys @ [x]) q = (lseg m p ys x \<and> x \<noteq> 0 \<and> s_next (m x) = q)"
  by (auto simp: lseg_append)

lemma chain_snoc: "chain m p (ys @ [x]) = (lseg m p ys x \<and> x \<noteq> 0 \<and> s_next (m x) = 0)"
  by (simp only: chain_lseg lseg_snoc)

lemma lseg_upd_other:
  "x \<notin> set ys \<Longrightarrow> lseg (m(x := v)) p ys q = lseg m p ys q"
  by (rule lseg_cong) auto

lemma top_block_shrink:
  assumes ok: "heap_ok s (xs @ [h])"
    and same: "brk s1 = brk s" "heap_start s1 = heap_start s" "heap_max s1 = heap_max s"
    and sz: "s_size (hdr s1 h) = s_size (hdr s h)"
  shows "sbrk s1 (0 - s_size (hdr s1 h) - sizeof_header_t) = (brk s, s1\<lparr>brk := h\<rparr>)"
    and "uint (brk s) - uint h = uint (s_size (hdr s h)) + uint sizeof_header_t"
proof -
  have h: "h \<in> set (xs @ [h])" by simp
  note mem = heap_ok_member [OF ok h]
  note lim = heap_ok_brk [OF ok]
  from ok have "layout (hdr s) (uint (heap_start s)) (xs @ [h]) (uint (brk s))"
    by (simp add: heap_ok_def)
  from layout_last_top [OF this]
  have top: "uint h + 24 + uint (s_size (hdr s h)) = uint (brk s)" by (simp add: uint_sizeof)
  then show "uint (brk s) - uint h = uint (s_size (hdr s h)) + uint sizeof_header_t"
    by (simp add: uint_sizeof)
  have amount: "uint (s_size (hdr s1 h)) + uint sizeof_header_t = uint (brk s) - uint h"
    using top by (simp add: sz uint_sizeof)
  have pos: "0 < uint (s_size (hdr s1 h)) + uint sizeof_header_t"
    using uint_ge_0 [of "s_size (hdr s1 h)"] unfolding uint_sizeof by linarith
  have small: "uint (s_size (hdr s1 h)) + uint sizeof_header_t < 2 ^ 63"
    using mem(4) uint_ge_0 [of h] unfolding amount p63 by linarith
  have lo: "uint (heap_start s1) \<le> uint (brk s1) - (uint (s_size (hdr s1 h)) + uint sizeof_header_t)"
    using mem(2) unfolding amount same by linarith
  have hi: "uint (brk s1) \<le> uint (heap_max s1)" using lim(2) by (simp add: same)
  have diff: "uint (brk s1) - (uint (s_size (hdr s1 h)) + uint sizeof_header_t) = uint h"
    unfolding amount same by linarith
  have eq: "word_of_int (uint (brk s1) - (uint (s_size (hdr s1 h)) + uint sizeof_header_t)) = h"
    by (simp only: diff word_of_int_uint)
  from sbrk_shrink [OF pos small lo hi]
  show "sbrk s1 (0 - s_size (hdr s1 h) - sizeof_header_t) = (brk s, s1\<lparr>brk := h\<rparr>)"
    unfolding eq by (simp only: same)
qed

lemma free_top_single:
  assumes ok: "heap_ok s [h]"
  shows "free_top s h = Some (s\<lparr>head := 0, tail := 0, brk := h\<rparr>)"
    and "heap_ok (s\<lparr>head := 0, tail := 0, brk := h\<rparr>) []"
proof -
  from ok have ok': "heap_ok s ([] @ [h])" by simp
  from ok have hd: "head s = h" and tl: "tail s = h" by (simp_all add: heap_ok_def)
  have "sbrk (s\<lparr>head := 0, tail := 0\<rparr>) (0 - s_size (hdr (s\<lparr>head := 0, tail := 0\<rparr>) h) - sizeof_header_t)
        = (brk s, s\<lparr>head := 0, tail := 0, brk := h\<rparr>)"
    using top_block_shrink(1) [OF ok', of "s\<lparr>head := 0, tail := 0\<rparr>"] by simp
  then show "free_top s h = Some (s\<lparr>head := 0, tail := 0, brk := h\<rparr>)"
    by (simp add: free_top_def hd tl)
  from ok have start: "uint h = uint (heap_start s)" by (simp add: heap_ok_def)
  have "h \<in> set [h]" by simp
  from heap_ok_member [OF ok this] heap_ok_brk [OF ok]
  have "uint h \<le> uint (heap_max s)" using uint_ge_0 [of "s_size (hdr s h)"] by linarith
  then have "h \<le> heap_max s" by (simp add: word_le_def)
  with ok start show "heap_ok (s\<lparr>head := 0, tail := 0, brk := h\<rparr>) []"
    by (simp add: heap_ok_def)
qed

lemma free_top_many:
  assumes ok: "heap_ok s (ys @ [x, h])"
  shows "free_top s h = Some ((set_next s x 0)\<lparr>tail := x, brk := h\<rparr>)"
    and "heap_ok ((set_next s x 0)\<lparr>tail := x, brk := h\<rparr>) (ys @ [x])"
proof -
  from ok have ok': "heap_ok s ((ys @ [x]) @ [h])" by simp
  from ok have dist: "distinct (ys @ [x, h])" by (rule heap_ok_distinct)
  from ok have ch: "chain (hdr s) (head s) ((ys @ [x]) @ [h])" and tl: "tail s = h"
    and lay: "layout (hdr s) (uint (heap_start s)) ((ys @ [x]) @ [h]) (uint (brk s))"
    and nz: "heap_start s \<noteq> 0" and mx: "uint (heap_max s) < 2 ^ 63"
    by (simp_all add: heap_ok_def)
  from ch have seg: "lseg (hdr s) (head s) (ys @ [x]) h" by (simp only: chain_snoc)
  from seg [unfolded lseg_snoc] have seg': "lseg (hdr s) (head s) ys x" and x: "x \<noteq> 0"
    by simp_all
  from dist have out: "h \<notin> set (ys @ [x])" by auto
  from seg dist have "head s \<noteq> h" by (cases ys) auto
  then have ne: "head s \<noteq> tail s" by (simp add: tl)
  have loop: "free_loop (hdr s) (head s) (tail s) = Some x"
    unfolding tl by (rule free_loop_prev [OF seg out])
  let ?s1 = "(set_next s x 0)\<lparr>tail := x\<rparr>"
  from dist have "x \<noteq> h" by auto
  then have sz: "s_size (hdr ?s1 h) = s_size (hdr s h)" by (simp add: hdr_set_next)
  have "sbrk ?s1 (0 - s_size (hdr ?s1 h) - sizeof_header_t) = (brk s, ?s1\<lparr>brk := h\<rparr>)"
    by (rule top_block_shrink(1) [OF ok' _ _ _ sz]) (simp_all add: set_next_def)
  with ne loop x show "free_top s h = Some ((set_next s x 0)\<lparr>tail := x, brk := h\<rparr>)"
    by (simp add: free_top_def Let_def)
  from dist have "x \<notin> set ys" by auto
  with seg' have "lseg ((hdr s)(x := (hdr s x)\<lparr>s_next := 0\<rparr>)) (head s) ys x"
    by (simp add: lseg_upd_other)
  with x have chain': "chain (hdr (set_next s x 0)) (head s) (ys @ [x])"
    by (simp add: chain_snoc hdr_set_next)
  from layout_butlast [OF lay]
  have lay': "layout (hdr (set_next s x 0)) (uint (heap_start s)) (ys @ [x]) (uint h)"
    by (simp only: layout_set_next)
  have "h \<in> set (ys @ [x, h])" by simp
  from heap_ok_member [OF ok this] heap_ok_brk [OF ok]
  have "uint h \<le> uint (heap_max s)" using uint_ge_0 [of "s_size (hdr s h)"] by linarith
  then have "h \<le> heap_max s" by (simp add: word_le_def)
  with chain' lay' nz mx
  show "heap_ok ((set_next s x 0)\<lparr>tail := x, brk := h\<rparr>) (ys @ [x])"
    by (simp add: heap_ok_def set_next_def)
qed

subsection \<open>Three heaps used as examples\<close>

lemma heap2_ok: "heap_ok heap2 [4096, 4184]"
  by (simp add: heap_ok_def heap2_def sizeof_header_t_def)

lemma heap1_ok: "heap_ok heap1 [4096, 4184]"
  unfolding heap1_def by (rule heap_ok_set_is_free [OF heap2_ok])

lemma heap0_ok: "heap_ok heap0 []"
  by (simp add: heap_ok_def heap0_def)

subsection \<open>Extending the heap\<close>

lemma malloc_extend_fail:
  "sbrk s (sizeof_header_t + size') = (- 1, s1) \<Longrightarrow> malloc_extend s size' = (0, s1)"
  by (simp add: malloc_extend_def)

lemma header_written:
  "(h :: header)\<lparr>s_size := a, s_is_free := b, s_next := c\<rparr> = \<lparr>s_size = a, s_is_free = b, s_next = c\<rparr>"
  by (cases h) simp

lemma malloc_extend_empty:
  assumes "sbrk s (sizeof_header_t + size') = (n, s1)" and "n \<noteq> - 1"
    and "head s1 = 0" and "tail s1 = 0"
  shows "malloc_extend s size' =
         (payload n, s1\<lparr>head := n, tail := n,
                        hdr := (hdr s1)(n := \<lparr>s_size = size', s_is_free = 0, s_next = 0\<rparr>)\<rparr>)"
  using assms
  by (simp add: malloc_extend_def Let_def payload_def set_size_def set_is_free_def
      set_next_def header_written)

lemma malloc_extend_nonempty:
  assumes "sbrk s (sizeof_header_t + size') = (n, s1)" and "n \<noteq> - 1"
    and "head s1 \<noteq> 0" and "tail s1 \<noteq> 0" and "tail s1 \<noteq> n"
  shows "malloc_extend s size' =
         (payload n, s1\<lparr>tail := n,
                        hdr := (hdr s1)(n := \<lparr>s_size = size', s_is_free = 0, s_next = 0\<rparr>,
                                        tail s1 := (hdr s1 (tail s1))\<lparr>s_next := n\<rparr>)\<rparr>)"
  using assms
  by (simp add: malloc_extend_def Let_def payload_def set_size_def set_is_free_def
      set_next_def header_written)

subsection \<open>Linking a new block\<close>

lemma brk_fresh:
  assumes ok: "heap_ok s bs"
  shows "brk s \<noteq> 0" and "brk s \<noteq> - 1" and "brk s \<notin> set bs"
proof -
  note lim = heap_ok_brk [OF ok]
  from lim have pos: "0 < uint (brk s)" by linarith
  then show "brk s \<noteq> 0" by auto
  have "sint (- 1 :: 64 word) = - 1" by simp
  moreover from lim have "uint (brk s) < 2 ^ 63" by linarith
  then have "sint (brk s) = uint (brk s)"
    using sint_add_small [of "brk s" 0] by simp
  ultimately have "sint (brk s) \<noteq> sint (- 1 :: 64 word)" using pos by linarith
  then show "brk s \<noteq> - 1" by auto
  show "brk s \<notin> set bs"
  proof
    assume "brk s \<in> set bs"
    from heap_ok_member(3) [OF ok this] uint_ge_0 [of "s_size (hdr s (brk s))"]
    show False by linarith
  qed
qed

lemma heap_ok_ends:
  assumes ok: "heap_ok s bs"
  shows "(head s = 0) = (bs = [])" and "(tail s = 0) = (bs = [])"
proof -
  from ok have ch: "chain (hdr s) (head s) bs"
    and tl: "tail s = (if bs = [] then 0 else last bs)" by (simp_all add: heap_ok_def)
  from ch show "(head s = 0) = (bs = [])" by (cases bs) auto
  from chain_nonzero [OF ch] have "bs \<noteq> [] \<Longrightarrow> last bs \<noteq> 0"
    by (metis last_in_set)
  with tl show "(tail s = 0) = (bs = [])" by auto
qed

lemma malloc_extend_linked:
  assumes ok: "heap_ok s bs"
    and run: "sbrk s (sizeof_header_t + size') = (brk s, s\<lparr>brk := b\<rparr>)"
  shows "\<exists>s'. malloc_extend s size' = (payload (brk s), s') \<and>
              chain (hdr s') (head s') (bs @ [brk s]) \<and> tail s' = brk s \<and> brk s' = b \<and>
              heap_start s' = heap_start s \<and> heap_max s' = heap_max s \<and>
              bytes s' = bytes s \<and>
              hdr s' (brk s) = \<lparr>s_size = size', s_is_free = 0, s_next = 0\<rparr> \<and>
              (\<forall>h\<in>set bs. s_size (hdr s' h) = s_size (hdr s h) \<and>
                           s_is_free (hdr s' h) = s_is_free (hdr s h))"
proof (cases bs rule: rev_cases)
  case Nil
  with heap_ok_ends [OF ok] have e: "head (s\<lparr>brk := b\<rparr>) = 0" "tail (s\<lparr>brk := b\<rparr>) = 0"
    by simp_all
  from malloc_extend_empty [OF run brk_fresh(2) [OF ok] e] brk_fresh(1) [OF ok]
  show ?thesis unfolding Nil by simp
next
  case (snoc xs t)
  with heap_ok_ends [OF ok] have e: "head (s\<lparr>brk := b\<rparr>) \<noteq> 0" "tail (s\<lparr>brk := b\<rparr>) \<noteq> 0"
    by simp_all
  from ok snoc have tl: "tail s = t" by (simp add: heap_ok_def)
  from brk_fresh(3) [OF ok] snoc have fresh: "brk s \<notin> set xs" "t \<noteq> brk s" by auto
  then have ne: "tail (s\<lparr>brk := b\<rparr>) \<noteq> brk s" by (simp add: tl)
  from heap_ok_distinct [OF ok] snoc have tx: "t \<notin> set xs" by simp
  from ok snoc have "chain (hdr s) (head s) (xs @ [t])" by (simp add: heap_ok_def)
  then have seg: "lseg (hdr s) (head s) xs t" and t: "t \<noteq> 0" by (simp_all add: chain_snoc)
  let ?m = "(hdr s)(brk s := \<lparr>s_size = size', s_is_free = 0, s_next = 0\<rparr>,
                    t := (hdr s t)\<lparr>s_next := brk s\<rparr>)"
  from fresh tx have "\<forall>x\<in>set xs. s_next (?m x) = s_next (hdr s x)" by auto
  then have "lseg ?m (head s) xs t = lseg (hdr s) (head s) xs t" by (rule lseg_cong)
  with seg have "lseg ?m (head s) xs t" by blast
  with t fresh brk_fresh(1) [OF ok] have "chain ?m (head s) ((xs @ [t]) @ [brk s])"
    unfolding chain_snoc lseg_snoc by simp
  with malloc_extend_nonempty [OF run brk_fresh(2) [OF ok] e ne] fresh tx
  show ?thesis unfolding snoc by (auto simp: tl)
qed

subsection \<open>Growing a well-formed heap\<close>

lemma payload_brk_nonzero:
  assumes ok: "heap_ok s bs"
  shows "payload (brk s) \<noteq> 0"
proof -
  note lim = heap_ok_brk [OF ok]
  have "uint (brk s) + uint sizeof_header_t < 2 ^ 64"
    using lim unfolding uint_sizeof p63 p64 by linarith
  from uint_add_small [OF this] have "uint (payload (brk s)) = uint (brk s) + 24"
    by (simp add: payload_def uint_sizeof)
  with lim have "uint (payload (brk s)) \<noteq> 0" by linarith
  then show ?thesis by auto
qed

lemma malloc_extend_cases:
  assumes ok: "heap_ok s bs"
  shows "malloc_extend s size' = (0, s) \<or>
         (\<exists>s'. malloc_extend s size' = (payload (brk s), s') \<and>
               chain (hdr s') (head s') (bs @ [brk s]) \<and> bytes s' = bytes s \<and>
               (\<forall>h\<in>set bs. s_size (hdr s' h) = s_size (hdr s h) \<and>
                            s_is_free (hdr s' h) = s_is_free (hdr s h)))"
proof -
  from sbrk_cases [of s "sizeof_header_t + size'"]
  show ?thesis
  proof
    assume "sbrk s (sizeof_header_t + size') = (- 1, s)"
    then show ?thesis by (simp add: malloc_extend_fail)
  next
    assume "\<exists>b. sbrk s (sizeof_header_t + size') = (brk s, s\<lparr>brk := b\<rparr>)"
    then obtain b where "sbrk s (sizeof_header_t + size') = (brk s, s\<lparr>brk := b\<rparr>)" ..
    from malloc_extend_linked [OF ok this] show ?thesis by blast
  qed
qed

lemma malloc_extend_ok:
  assumes ok: "heap_ok s bs" and fits: "request_fits size'"
    and room: "uint (brk s) + 24 + uint size' \<le> uint (heap_max s)"
  shows "\<exists>s'. malloc_extend s size' = (payload (brk s), s') \<and>
              heap_ok s' (bs @ [brk s]) \<and>
              uint (brk s') = uint (brk s) + 24 + uint size' \<and>
              bytes s' = bytes s \<and>
              s_size (hdr s' (brk s)) = size' \<and> s_is_free (hdr s' (brk s)) = 0 \<and>
              (\<forall>h\<in>set bs. s_size (hdr s' h) = s_size (hdr s h) \<and>
                           s_is_free (hdr s' h) = s_is_free (hdr s h))"
proof -
  note lim = heap_ok_brk [OF ok]
  define b :: "64 word" where "b = word_of_int (uint (brk s) + 24 + uint size')"
  have run: "sbrk s (sizeof_header_t + size') = (brk s, s\<lparr>brk := b\<rparr>)"
    unfolding b_def by (rule sbrk_grow [OF fits lim(1) room])
  from malloc_extend_linked [OF ok run] obtain s' where
    res: "malloc_extend s size' = (payload (brk s), s')"
    and ch: "chain (hdr s') (head s') (bs @ [brk s])" and tl: "tail s' = brk s"
    and b: "brk s' = b" and lims: "heap_start s' = heap_start s" "heap_max s' = heap_max s"
    and bt: "bytes s' = bytes s"
    and new: "hdr s' (brk s) = \<lparr>s_size = size', s_is_free = 0, s_next = 0\<rparr>"
    and old: "\<forall>h\<in>set bs. s_size (hdr s' h) = s_size (hdr s h) \<and>
                           s_is_free (hdr s' h) = s_is_free (hdr s h)"
    by blast
  have "0 \<le> uint (brk s) + 24 + uint size'" using lim uint_ge_0 [of size'] by linarith
  moreover have "uint (brk s) + 24 + uint size' < 2 ^ 64"
    using room lim unfolding p63 p64 by linarith
  ultimately have ub: "uint b = uint (brk s) + 24 + uint size'"
    unfolding b_def by (rule uint_of_int64)
  from ok have lay: "layout (hdr s) (uint (heap_start s)) bs (uint (brk s))"
    and nz: "heap_start s \<noteq> 0" by (simp_all add: heap_ok_def)
  from old have "\<forall>h\<in>set bs. s_size (hdr s' h) = s_size (hdr s h)" by simp
  from layout_cong [OF this] lay
  have "layout (hdr s') (uint (heap_start s)) bs (uint (brk s))" by blast
  from layout_snoc [OF this]
  have lay': "layout (hdr s') (uint (heap_start s')) (bs @ [brk s]) (uint (brk s'))"
    by (simp add: new b ub lims uint_sizeof)
  from room have "brk s' \<le> heap_max s'" by (simp add: word_le_def b ub lims)
  with ch tl lay' nz lim(3) have "heap_ok s' (bs @ [brk s])"
    by (simp add: heap_ok_def lims)
  with res b ub bt new old show ?thesis by simp
qed

subsection \<open>What malloc and free always do on a well-formed heap\<close>

lemma get_free_block_cases:
  assumes ch: "chain (hdr s) (head s) bs"
  shows "(\<exists>h\<in>set bs. is_fit (hdr s) size' h \<and> get_free_block s size' = Some h) \<or>
         ((\<forall>h\<in>set bs. \<not> is_fit (hdr s) size' h) \<and> get_free_block s size' = Some 0)"
proof (cases "find (is_fit (hdr s) size') bs")
  case None
  then have "\<forall>h\<in>set bs. \<not> is_fit (hdr s) size' h" by (simp add: find_None_iff)
  with get_free_block_none [OF ch] show ?thesis by blast
next
  case (Some h)
  then have "h \<in> set bs" and "is_fit (hdr s) size' h"
    by (auto simp: find_Some_iff)
  moreover from ch Some have "get_free_block s size' = Some h"
    by (simp add: get_free_block_def get_free_block_loop_chain)
  ultimately show ?thesis by blast
qed

lemma malloc_cases:
  assumes ch: "chain (hdr s) (head s) bs" and nz: "size' \<noteq> 0"
  shows "(\<exists>h\<in>set bs. is_fit (hdr s) size' h \<and>
                     malloc s size' = Some (payload h, set_is_free s h 0)) \<or>
         ((\<forall>h\<in>set bs. \<not> is_fit (hdr s) size' h) \<and>
          malloc s size' = Some (malloc_extend s size'))"
proof -
  from get_free_block_cases [OF ch, of size'] show ?thesis
  proof
    assume "\<exists>h\<in>set bs. is_fit (hdr s) size' h \<and> get_free_block s size' = Some h"
    then obtain h where h: "h \<in> set bs" "is_fit (hdr s) size' h"
      and hit: "get_free_block s size' = Some h" by blast
    from chain_nonzero [OF ch] h(1) have "h \<noteq> 0" by auto
    with nz hit have "malloc s size' = Some (payload h, set_is_free s h 0)"
      by (simp add: malloc_def payload_def)
    with h show ?thesis by blast
  next
    assume "(\<forall>h\<in>set bs. \<not> is_fit (hdr s) size' h) \<and> get_free_block s size' = Some 0"
    with nz show ?thesis by (simp add: malloc_def)
  qed
qed

lemma malloc_summary:
  assumes ok: "heap_ok s bs"
  shows "\<exists>ret s1. malloc s size' = Some (ret, s1) \<and> (ret = 0 \<longrightarrow> s1 = s) \<and>
                  bytes s1 = bytes s \<and> (\<exists>bs'. chain (hdr s1) (head s1) bs') \<and>
                  (\<forall>h\<in>set bs. s_size (hdr s1 h) = s_size (hdr s h))"
proof (cases "size' = 0")
  case True
  with heap_ok_chain [OF ok] show ?thesis by (auto simp: malloc_def)
next
  case False
  from malloc_cases [OF heap_ok_chain [OF ok] False] show ?thesis
  proof
    assume "\<exists>h\<in>set bs. is_fit (hdr s) size' h \<and>
                     malloc s size' = Some (payload h, set_is_free s h 0)"
    then obtain h where h: "h \<in> set bs"
      and res: "malloc s size' = Some (payload h, set_is_free s h 0)" by blast
    from heap_ok_chain [OF ok]
    have "chain (hdr (set_is_free s h 0)) (head (set_is_free s h 0)) bs"
      by (simp add: chain_set_is_free) (simp add: set_is_free_def)
    with res payload_nonzero [OF ok h] show ?thesis
      by (auto simp: set_is_free_def)
  next
    assume "(\<forall>h\<in>set bs. \<not> is_fit (hdr s) size' h) \<and>
            malloc s size' = Some (malloc_extend s size')"
    then have res: "malloc s size' = Some (malloc_extend s size')" ..
    from malloc_extend_cases [OF ok, of size'] show ?thesis
    proof
      assume "malloc_extend s size' = (0, s)"
      with res heap_ok_chain [OF ok] show ?thesis by auto
    next
      assume "\<exists>s'. malloc_extend s size' = (payload (brk s), s') \<and>
               chain (hdr s') (head s') (bs @ [brk s]) \<and> bytes s' = bytes s \<and>
               (\<forall>h\<in>set bs. s_size (hdr s' h) = s_size (hdr s h) \<and>
                            s_is_free (hdr s' h) = s_is_free (hdr s h))"
      with res payload_brk_nonzero [OF ok] show ?thesis by auto
    qed
  qed
qed

lemma bytes_sbrk: "bytes (snd (sbrk s i)) = bytes s"
  using sbrk_cases [of s i] by auto

lemma free_top_total:
  assumes ch: "chain (hdr s) (head s) bs"
  shows "\<exists>s'. free_top s h = Some s' \<and> bytes s' = bytes s"
proof (cases "head s = tail s")
  case True
  then show ?thesis by (simp add: free_top_def bytes_sbrk)
next
  case False
  from free_loop_chain_total [OF ch] obtain r where
    "free_loop (hdr s) (head s) (tail s) = Some r" by blast
  with False show ?thesis by (simp add: free_top_def Let_def bytes_sbrk set_next_def)
qed

lemma free_total:
  assumes ch: "chain (hdr s) (head s) bs"
  shows "\<exists>s'. free s p = Some s' \<and> bytes s' = bytes s"
  using free_top_total [OF ch]
  by (simp add: free_def Let_def set_is_free_def)

lemma bytes_memcpy: "i < n \<Longrightarrow> bytes (memcpy s dst src n) (dst + i) = bytes s (src + i)"
  by (simp add: memcpy_def)

lemma bytes_memset: "i < n \<Longrightarrow> bytes (memset s p c n) (p + i) = c"
  by (simp add: memset_def)

subsection \<open>A successful malloc on a well-formed heap\<close>

lemma malloc_ok:
  assumes ok: "heap_ok s bs" and fits: "request_fits size'"
    and m: "malloc s size' = Some (ret, s1)" and r: "ret \<noteq> 0"
  shows "\<exists>bs' h. heap_ok s1 bs' \<and> h \<in> set bs' \<and> ret = payload h \<and>
                 size' \<le> s_size (hdr s1 h) \<and> s_is_free (hdr s1 h) = 0 \<and>
                 (bs' = bs \<or> bs' = bs @ [h]) \<and> bytes s1 = bytes s \<and>
                 (\<forall>b\<in>set bs. b \<noteq> h \<longrightarrow> s_size (hdr s1 b) = s_size (hdr s b) \<and>
                                       s_is_free (hdr s1 b) = s_is_free (hdr s b))"
proof -
  from m r have nz: "size' \<noteq> 0" by (auto simp: malloc_def)
  from malloc_cases [OF heap_ok_chain [OF ok] nz] show ?thesis
  proof
    assume "\<exists>h\<in>set bs. is_fit (hdr s) size' h \<and>
                     malloc s size' = Some (payload h, set_is_free s h 0)"
    then obtain h where h: "h \<in> set bs" and f: "is_fit (hdr s) size' h"
      and res: "malloc s size' = Some (payload h, set_is_free s h 0)" by blast
    from res m have "ret = payload h" and s1: "s1 = set_is_free s h 0" by simp_all
    moreover from f have "size' \<le> s_size (hdr (set_is_free s h 0) h)"
      by (simp add: is_fit_def set_is_free_def)
    moreover have "s_is_free (hdr (set_is_free s h 0) h) = 0" by (simp add: set_is_free_def)
    moreover have "bytes (set_is_free s h 0) = bytes s" by (simp add: set_is_free_def)
    moreover have "\<forall>b\<in>set bs. b \<noteq> h \<longrightarrow> hdr (set_is_free s h 0) b = hdr s b"
      by (simp add: set_is_free_def)
    ultimately have "heap_ok s1 bs \<and> h \<in> set bs \<and> ret = payload h \<and>
                 size' \<le> s_size (hdr s1 h) \<and> s_is_free (hdr s1 h) = 0 \<and>
                 (bs = bs \<or> bs = bs @ [h]) \<and> bytes s1 = bytes s \<and>
                 (\<forall>b\<in>set bs. b \<noteq> h \<longrightarrow> s_size (hdr s1 b) = s_size (hdr s b) \<and>
                                       s_is_free (hdr s1 b) = s_is_free (hdr s b))"
      using heap_ok_set_is_free [OF ok, of h 0] h by simp
    then show ?thesis by (intro exI [of _ bs] exI [of _ h])
  next
    assume "(\<forall>h\<in>set bs. \<not> is_fit (hdr s) size' h) \<and>
            malloc s size' = Some (malloc_extend s size')"
    with m have ext: "malloc_extend s size' = (ret, s1)" by simp
    have room: "uint (brk s) + 24 + uint size' \<le> uint (heap_max s)"
    proof (rule ccontr)
      assume "\<not> uint (brk s) + 24 + uint size' \<le> uint (heap_max s)"
      then have "uint (heap_max s) < uint (brk s) + 24 + uint size'" by linarith
      from malloc_extend_fail [OF sbrk_grow_fail [OF fits this]] ext r show False by simp
    qed
    from malloc_extend_ok [OF ok fits room] ext
    have "heap_ok s1 (bs @ [brk s]) \<and> brk s \<in> set (bs @ [brk s]) \<and> ret = payload (brk s) \<and>
                 size' \<le> s_size (hdr s1 (brk s)) \<and> s_is_free (hdr s1 (brk s)) = 0 \<and>
                 (bs @ [brk s] = bs \<or> bs @ [brk s] = bs @ [brk s]) \<and> bytes s1 = bytes s \<and>
                 (\<forall>b\<in>set bs. b \<noteq> brk s \<longrightarrow> s_size (hdr s1 b) = s_size (hdr s b) \<and>
                                       s_is_free (hdr s1 b) = s_is_free (hdr s b))"
      by auto
    then show ?thesis by (intro exI [of _ "bs @ [brk s]"] exI [of _ "brk s"])
  qed
qed

subsection \<open>The overflow test of calloc\<close>

lemma calloc_overflow_check:
  assumes nz: "(num :: size_t) \<noteq> 0"
  shows "(nsize \<noteq> (num * nsize) div num) = (2 ^ 64 \<le> unat num * unat nsize)"
proof (cases "unat num * unat nsize < 2 ^ 64")
  case True
  then have "unat (num * nsize) = unat num * unat nsize"
    using unat_mult_lem [of num nsize] by simp
  moreover from nz have "0 < unat num" by (simp add: unat_gt_0)
  ultimately have "unat ((num * nsize) div num) = unat nsize"
    by (simp add: unat_div)
  then have "(num * nsize) div num = nsize" by (simp add: word_unat_eq_iff)
  with True show ?thesis by simp
next
  case False
  from nz have pos: "0 < unat num" by (simp add: unat_gt_0)
  have "unat (num * nsize) < 2 ^ 64" using unsigned_less [of "num * nsize", where ?'a = nat] by simp
  with False have "unat (num * nsize) < unat nsize * unat num" by (simp add: mult.commute)
  then have "unat (num * nsize) div unat num < unat nsize"
    by (rule less_mult_imp_div_less)
  then have "unat ((num * nsize) div num) \<noteq> unat nsize" by (simp add: unat_div)
  then have "(num * nsize) div num \<noteq> nsize" by auto
  with False show ?thesis by auto
qed

subsection \<open>Requests whose total size wraps around\<close>

lemma malloc_wrapped: "malloc heap0 (- 24) = Some (4120, heap_wrapped)"
  by (simp add: malloc_def get_free_block_def get_free_block_loop.simps malloc_extend_def
      sbrk_def heap0_def heap_wrapped_def sizeof_header_t_def set_size_def set_is_free_def
      set_next_def)

lemma malloc_looped: "malloc heap_wrapped 1 = Some (4120, heap_looped)"
  by (simp add: malloc_def get_free_block_def get_free_block_loop.simps malloc_extend_def
      sbrk_def heap0_def heap_wrapped_def heap_looped_def sizeof_header_t_def set_size_def
      set_is_free_def set_next_def Let_def)

lemma malloc_short: "malloc heap0 (- 1) = Some (4120, heap_short)"
  by (simp add: malloc_def get_free_block_def get_free_block_loop.simps malloc_extend_def
      sbrk_def heap0_def heap_short_def sizeof_header_t_def set_size_def set_is_free_def
      set_next_def Let_def)

lemma get_free_block_loop_cycle:
  assumes ret: "get_free_block_loop m c n = Some y"
  shows "\<not> (c \<noteq> 0 \<and> s_next (m c) = c \<and> \<not> is_fit m n c)"
proof (rule get_free_block_loop.raw_induct
    [where P = "\<lambda>m c n y. \<not> (c \<noteq> 0 \<and> s_next (m c) = c \<and> \<not> is_fit m n c)", OF _ ret])
  fix f m c n y
  assume ih: "\<And>m c n y. f m c n = Some y \<Longrightarrow>
                \<not> (c \<noteq> 0 \<and> s_next (m c) = c \<and> \<not> is_fit m n c)"
    and step: "(if c = 0 then Some 0
               else if s_is_free (m c) \<noteq> 0 \<and> n \<le> s_size (m c) then Some c
                    else f m (s_next (m c)) n) = Some y"
  show "\<not> (c \<noteq> 0 \<and> s_next (m c) = c \<and> \<not> is_fit m n c)"
  proof
    assume cyc: "c \<noteq> 0 \<and> s_next (m c) = c \<and> \<not> is_fit m n c"
    then have c: "c \<noteq> 0" and nx: "s_next (m c) = c"
      and nf: "\<not> (s_is_free (m c) \<noteq> 0 \<and> n \<le> s_size (m c))"
      by (simp_all add: is_fit_def)
    from step have "f m (s_next (m c)) n = Some y" by (simp only: c nf if_False)
    then have "f m c n = Some y" by (simp only: nx)
    from ih [OF this] cyc show False by blast
  qed
qed

lemma malloc_never_returns: "malloc heap_looped 2 = None"
proof -
  have "get_free_block_loop (hdr heap_looped) 4096 2 = None"
  proof (cases "get_free_block_loop (hdr heap_looped) 4096 2")
    case None
    then show ?thesis .
  next
    case (Some y)
    from get_free_block_loop_cycle [OF this] show ?thesis
      by (simp add: heap_looped_def is_fit_def)
  qed
  then show ?thesis
    by (simp add: malloc_def get_free_block_def heap_looped_def)
qed

subsection \<open>The invariants for requests that fit\<close>

lemma layout_sorted: "layout m a bs t \<Longrightarrow> sorted_wrt (<) bs"
proof (induction bs arbitrary: a)
  case Nil
  then show ?case by simp
next
  case (Cons b bs)
  from Cons.prems have here: "uint b = a"
    and rest: "layout m (a + uint sizeof_header_t + uint (s_size (m b))) bs t" by simp_all
  have "\<forall>c\<in>set bs. b < c"
  proof
    fix c assume "c \<in> set bs"
    from layout_bounds [OF rest this] here uint_ge_0 [of "s_size (m b)"]
    have "uint b < uint c" unfolding uint_sizeof by linarith
    then show "b < c" by (simp add: word_less_def)
  qed
  with Cons.IH [OF rest] show ?case by simp
qed

lemma heap_ok_sorted: "heap_ok s bs \<Longrightarrow> sorted_wrt (<) bs"
  using layout_sorted by (auto simp: heap_ok_def)

lemma heap_ok_tail_link:
  assumes ok: "heap_ok s bs" and ne: "bs \<noteq> []"
  shows "tail s \<in> set bs" and "s_next (hdr s (tail s)) = 0"
proof -
  from ne obtain xs t where bs: "bs = xs @ [t]" by (cases bs rule: rev_cases) auto
  from ok bs have tl: "tail s = t" and ch: "chain (hdr s) (head s) (xs @ [t])"
    by (simp_all add: heap_ok_def)
  from tl bs show "tail s \<in> set bs" by simp
  from ch tl show "s_next (hdr s (tail s)) = 0" by (simp add: chain_snoc)
qed

lemma layout_disjoint:
  "layout m a bs t \<Longrightarrow> b \<in> set bs \<Longrightarrow> c \<in> set bs \<Longrightarrow> b < c \<Longrightarrow>
   uint b + uint sizeof_header_t + uint (s_size (m b)) \<le> uint c"
proof (induction bs arbitrary: a)
  case Nil
  then show ?case by simp
next
  case (Cons d bs)
  from Cons.prems(1) have here: "uint d = a"
    and rest: "layout m (a + uint sizeof_header_t + uint (s_size (m d))) bs t" by simp_all
  show ?case
  proof (cases "b = d")
    case True
    with Cons.prems have "c \<in> set bs" by auto
    from layout_bounds [OF rest this] here True show ?thesis by simp
  next
    case False
    with Cons.prems have b: "b \<in> set bs" by simp
    have "c \<noteq> d"
    proof
      assume "c = d"
      from layout_bounds [OF rest b] here uint_ge_0 [of "s_size (m d)"]
      have "uint d < uint b" unfolding uint_sizeof by linarith
      with \<open>c = d\<close> Cons.prems(4) show False by (simp add: word_less_def)
    qed
    with Cons.prems have "c \<in> set bs" by simp
    from Cons.IH [OF rest b this Cons.prems(4)] show ?thesis .
  qed
qed

lemma malloc_heap_ok:
  assumes ok: "heap_ok s bs" and fits: "request_fits size'"
    and m: "malloc s size' = Some (ret, s1)"
  shows "\<exists>bs'. heap_ok s1 bs'"
proof (cases "ret = 0")
  case True
  from malloc_summary [OF ok, of size'] m True have "s1 = s" by auto
  with ok show ?thesis by blast
next
  case False
  from malloc_ok [OF ok fits m False] show ?thesis by blast
qed

lemma free_heap_ok:
  assumes ok: "heap_ok s bs" and h: "h \<in> set bs"
  shows "\<exists>s' bs'. free s (payload h) = Some s' \<and> heap_ok s' bs' \<and> set bs' \<subseteq> set bs \<and>
                 bytes s' = bytes s"
proof (cases "payload h + s_size (hdr s h) = brk s")
  case False
  from free_not_top [OF ok h False] heap_ok_set_is_free [OF ok, of h 1]
  show ?thesis by (auto simp: set_is_free_def)
next
  case True
  with top_block_iff [OF ok h] obtain xs where bs: "bs = xs @ [h]" by auto
  have run: "free s (payload h) = free_top s h"
    by (rule free_at_top [OF payload_nonzero [OF ok h] True])
  show ?thesis
  proof (cases xs rule: rev_cases)
    case Nil
    with ok bs have "heap_ok s [h]" by simp
    from free_top_single [OF this] show ?thesis unfolding run by auto
  next
    case (snoc ys x)
    with ok bs have "heap_ok s (ys @ [x, h])" by simp
    from free_top_many [OF this] have
      "free_top s h = Some ((set_next s x 0)\<lparr>tail := x, brk := h\<rparr>)"
      "heap_ok ((set_next s x 0)\<lparr>tail := x, brk := h\<rparr>) (ys @ [x])" by simp_all
    moreover have "set (ys @ [x]) \<subseteq> set bs" using bs snoc by auto
    moreover have "bytes ((set_next s x 0)\<lparr>tail := x, brk := h\<rparr>) = bytes s"
      by (simp add: set_next_def)
    ultimately show ?thesis unfolding run by blast
  qed
qed

subsection \<open>The other two operations, and where an allocated region lies\<close>

lemma heap_ok_bytes: "heap_ok (s\<lparr>bytes := f\<rparr>) bs = heap_ok s bs"
  by (simp add: heap_ok_def)

lemma heap_ok_memset: "heap_ok (memset s p c n) bs = heap_ok s bs"
  by (simp add: memset_def heap_ok_bytes)

lemma heap_ok_memcpy: "heap_ok (memcpy s d p n) bs = heap_ok s bs"
  by (simp add: memcpy_def heap_ok_bytes)

lemma calloc_heap_ok:
  assumes ok: "heap_ok s bs" and fits: "request_fits (num * nsize)"
    and c: "calloc s num nsize = Some (ret, s')"
  shows "\<exists>bs'. heap_ok s' bs'"
proof (cases "num = 0 \<or> nsize = 0 \<or> nsize \<noteq> (num * nsize) div num")
  case True
  with c have "s' = s" by (auto simp: calloc_def Let_def split: if_splits)
  with ok show ?thesis by blast
next
  case False
  from malloc_summary [OF ok, of "num * nsize"] obtain r s1 where
    m: "malloc s (num * nsize) = Some (r, s1)" by blast
  from malloc_heap_ok [OF ok fits m] obtain bs' where ok1: "heap_ok s1 bs'" ..
  from False c m have "s' = s1 \<or> s' = memset s1 r 0 (num * nsize)"
    by (auto simp: calloc_def Let_def split: if_splits)
  with ok1 show ?thesis by (auto simp: heap_ok_memset)
qed

lemma realloc_heap_ok:
  assumes ok: "heap_ok s bs" and fits: "request_fits size'"
    and blk: "block = 0 \<or> (\<exists>h\<in>set bs. block = payload h)"
  shows "\<exists>ret s' bs'. realloc s block size' = Some (ret, s') \<and> heap_ok s' bs'"
proof -
  from malloc_summary [OF ok, of size'] obtain r s1 where
    m: "malloc s size' = Some (r, s1)" and null: "r = 0 \<longrightarrow> s1 = s" by blast
  from malloc_heap_ok [OF ok fits m] obtain bs1 where ok1: "heap_ok s1 bs1" ..
  show ?thesis
  proof (cases "block = 0 \<or> size' = 0")
    case True
    with m ok1 show ?thesis by (auto simp: realloc_def)
  next
    case False
    with blk obtain h where h: "h \<in> set bs" and b: "block = payload h" by blast
    show ?thesis
    proof (cases "size' \<le> s_size (hdr s h)")
      case True
      with False ok b show ?thesis by (auto simp: realloc_def payload_header)
    next
      case big: False
      show ?thesis
      proof (cases "r = 0")
        case True
        with False big m ok1 b show ?thesis
          by (auto simp: realloc_def payload_header)
      next
        case r: False
        from malloc_ok [OF ok fits m r] obtain bs' where ok': "heap_ok s1 bs'"
          and sub: "bs' = bs \<or> (\<exists>n. bs' = bs @ [n])" by blast
        from sub h have h': "h \<in> set bs'" by auto
        let ?c = "memcpy s1 r block (s_size (hdr s1 h))"
        from ok' have "heap_ok ?c bs'" by (simp add: heap_ok_memcpy)
        from free_heap_ok [OF this h'] obtain s2 bs2 where
          "free ?c (payload h) = Some s2" and "heap_ok s2 bs2" by blast
        with False big m r b show ?thesis
          by (auto simp: realloc_def payload_header)
      qed
    qed
  qed
qed

lemma malloc_region:
  assumes ok: "heap_ok s bs" and fits: "request_fits size'"
    and m: "malloc s size' = Some (ret, s1)" and r: "ret \<noteq> 0"
  shows "\<exists>bs' h. heap_ok s1 bs' \<and> h \<in> set bs' \<and> s_is_free (hdr s1 h) = 0 \<and>
           uint ret = uint h + 24 \<and> uint (heap_start s1) \<le> uint h \<and>
           uint ret + uint size' \<le> uint h + 24 + uint (s_size (hdr s1 h)) \<and>
           uint h + 24 + uint (s_size (hdr s1 h)) \<le> uint (brk s1) \<and>
           (\<forall>b\<in>set bs'. b < h \<longrightarrow> uint b + 24 + uint (s_size (hdr s1 b)) \<le> uint h) \<and>
           (\<forall>b\<in>set bs'. h < b \<longrightarrow> uint h + 24 + uint (s_size (hdr s1 h)) \<le> uint b)"
proof -
  from malloc_ok [OF ok fits m r] obtain bs' h where ok1: "heap_ok s1 bs'"
    and h: "h \<in> set bs'" and ret: "ret = payload h"
    and big: "size' \<le> s_size (hdr s1 h)" and used: "s_is_free (hdr s1 h) = 0" by blast
  note mem = heap_ok_member [OF ok1 h]
  from payload_uint(1) [OF mem(3,4)] have pu: "uint ret = uint h + 24" by (simp add: ret)
  from big have le: "uint size' \<le> uint (s_size (hdr s1 h))" by (simp add: word_le_def)
  from ok1 have lay: "layout (hdr s1) (uint (heap_start s1)) bs' (uint (brk s1))"
    by (simp add: heap_ok_def)
  have below: "\<forall>b\<in>set bs'. b < h \<longrightarrow> uint b + 24 + uint (s_size (hdr s1 b)) \<le> uint h"
    using layout_disjoint [OF lay _ h] by (auto simp: uint_sizeof)
  have above: "\<forall>b\<in>set bs'. h < b \<longrightarrow> uint h + 24 + uint (s_size (hdr s1 h)) \<le> uint b"
    using layout_disjoint [OF lay h] by (auto simp: uint_sizeof)
  from pu le have "uint ret + uint size' \<le> uint h + 24 + uint (s_size (hdr s1 h))" by linarith
  with ok1 h used pu mem(2,3) below above show ?thesis by blast
qed

subsection \<open>Growing a block through realloc\<close>

lemma free_outcome:
  assumes ok: "heap_ok s bs" and h: "h \<in> set bs"
  shows "\<exists>s' bs'. free s (payload h) = Some s' \<and> heap_ok s' bs' \<and> bytes s' = bytes s \<and>
           ((bs' = bs \<and> s_is_free (hdr s' h) = 1) \<or> bs = bs' @ [h]) \<and>
           (\<forall>b\<in>set bs'. b \<noteq> h \<longrightarrow> s_size (hdr s' b) = s_size (hdr s b) \<and>
                                  s_is_free (hdr s' b) = s_is_free (hdr s b))"
proof (cases "payload h + s_size (hdr s h) = brk s")
  case False
  let ?s = "set_is_free s h 1"
  have "free s (payload h) = Some ?s" by (rule free_not_top [OF ok h False])
  moreover have "heap_ok ?s bs" by (rule heap_ok_set_is_free [OF ok])
  moreover have "bytes ?s = bytes s" and "s_is_free (hdr ?s h) = 1"
    and "\<forall>b\<in>set bs. b \<noteq> h \<longrightarrow> s_size (hdr ?s b) = s_size (hdr s b) \<and>
                                  s_is_free (hdr ?s b) = s_is_free (hdr s b)"
    by (simp_all add: set_is_free_def)
  ultimately show ?thesis by blast
next
  case True
  with top_block_iff [OF ok h] obtain xs where bs: "bs = xs @ [h]" by auto
  have run: "free s (payload h) = free_top s h"
    by (rule free_at_top [OF payload_nonzero [OF ok h] True])
  show ?thesis
  proof (cases xs rule: rev_cases)
    case Nil
    with ok bs have one: "heap_ok s [h]" by simp
    let ?s = "s\<lparr>head := 0, tail := 0, brk := h\<rparr>"
    from free_top_single [OF one] have "free s (payload h) = Some ?s" and "heap_ok ?s []"
      unfolding run by simp_all
    moreover have "bytes ?s = bytes s" by simp
    moreover from bs Nil have "bs = [] @ [h]" by simp
    ultimately show ?thesis by fastforce
  next
    case (snoc ys x)
    with ok bs have many: "heap_ok s (ys @ [x, h])" by simp
    let ?s = "(set_next s x 0)\<lparr>tail := x, brk := h\<rparr>"
    from free_top_many [OF many] have "free s (payload h) = Some ?s"
      and "heap_ok ?s (ys @ [x])" unfolding run by simp_all
    moreover have "bytes ?s = bytes s" by (simp add: set_next_def)
    moreover from bs snoc have "bs = (ys @ [x]) @ [h]" by simp
    moreover have "\<forall>b\<in>set (ys @ [x]). b \<noteq> h \<longrightarrow> s_size (hdr ?s b) = s_size (hdr s b) \<and>
                                  s_is_free (hdr ?s b) = s_is_free (hdr s b)"
      by (simp add: set_next_def)
    ultimately show ?thesis by blast
  qed
qed

lemma realloc_grow_fits:
  assumes ok: "heap_ok s bs" and h: "h \<in> set bs"
    and grow: "s_size (hdr s h) < size'" and fits: "request_fits size'"
  shows "realloc s (payload h) size' = Some (0, s) \<or>
         (\<exists>s2 bs2 n. realloc s (payload h) size' = Some (payload n, s2) \<and> payload n \<noteq> 0 \<and>
            heap_ok s2 bs2 \<and> n \<in> set bs2 \<and> n \<noteq> h \<and>
            size' \<le> s_size (hdr s2 n) \<and> s_is_free (hdr s2 n) = 0 \<and>
            (h \<notin> set bs2 \<or> s_is_free (hdr s2 h) = 1) \<and>
            (\<forall>i. i < s_size (hdr s h) \<longrightarrow> bytes s2 (payload n + i) = bytes s (payload h + i)))"
proof -
  from grow have nz: "size' \<noteq> 0" by auto
  from grow have ng: "\<not> size' \<le> s_size (hdr s h)" by (simp add: not_le)
  note p = payload_nonzero [OF ok h]
  from malloc_summary [OF ok, of size'] obtain ret s1 where
    m: "malloc s size' = Some (ret, s1)" and null: "ret = 0 \<longrightarrow> s1 = s"
    and bt: "bytes s1 = bytes s"
    and sz: "\<forall>b\<in>set bs. s_size (hdr s1 b) = s_size (hdr s b)" by blast
  from sz h have sz1: "s_size (hdr s1 h) = s_size (hdr s h)" by simp
  have unfold: "realloc s (payload h) size' =
      (if ret \<noteq> 0 then
         (case free (memcpy s1 ret (payload h) (s_size (hdr s h))) (payload h) of
            None \<Rightarrow> None | Some s2 \<Rightarrow> Some (ret, s2))
       else Some (ret, s1))"
    using p nz ng m by (simp add: realloc_def payload_header sz1)
  show ?thesis
  proof (cases "ret = 0")
    case True
    with unfold null show ?thesis by simp
  next
    case r: False
    from malloc_ok [OF ok fits m r] obtain bs' n where ok1: "heap_ok s1 bs'"
      and n: "n \<in> set bs'" and ret: "ret = payload n"
      and big: "size' \<le> s_size (hdr s1 n)" and used: "s_is_free (hdr s1 n) = 0"
      and sub: "bs' = bs \<or> bs' = bs @ [n]" by blast
    from sub h have h': "h \<in> set bs'" by auto
    from big ng sz1 have nh: "n \<noteq> h" by auto
    let ?c = "memcpy s1 ret (payload h) (s_size (hdr s h))"
    have hc: "hdr ?c = hdr s1" by (simp add: memcpy_def)
    from ok1 have okc: "heap_ok ?c bs'" by (simp add: heap_ok_memcpy)
    from free_outcome [OF okc h'] obtain s2 bs2 where
      f: "free ?c (payload h) = Some s2" and ok2: "heap_ok s2 bs2"
      and b2: "bytes s2 = bytes ?c"
      and rel: "(bs2 = bs' \<and> s_is_free (hdr s2 h) = 1) \<or> bs' = bs2 @ [h]"
      and keep: "\<forall>b\<in>set bs2. b \<noteq> h \<longrightarrow> s_size (hdr s2 b) = s_size (hdr ?c b) \<and>
                                  s_is_free (hdr s2 b) = s_is_free (hdr ?c b)" by blast
    from rel n nh have n2: "n \<in> set bs2" by auto
    from heap_ok_distinct [OF ok1] rel have gone: "h \<notin> set bs2 \<or> s_is_free (hdr s2 h) = 1"
      by auto
    from keep n2 nh big used have new: "size' \<le> s_size (hdr s2 n)" "s_is_free (hdr s2 n) = 0"
      by (simp_all add: hc)
    have cp: "\<forall>i. i < s_size (hdr s h) \<longrightarrow> bytes s2 (payload n + i) = bytes s (payload h + i)"
      by (simp add: b2 ret [symmetric] bytes_memcpy bt)
    from unfold r f have "realloc s (payload h) size' = Some (payload n, s2)"
      by (simp add: ret)
    with r ret ok2 n2 nh new gone cp show ?thesis by blast
  qed
qed

lemma malloc_mid: "malloc heap2 (- 176) = Some (4360, heap_mid)"
  by (simp add: malloc_def get_free_block_def get_free_block_loop.simps malloc_extend_def
      sbrk_def heap2_def heap_mid_def sizeof_header_t_def set_size_def set_is_free_def
      set_next_def Let_def)

lemma free_lost: "free (memcpy heap_mid 4360 4120 64) 4120 = Some heap_lost"
  by (simp add: free_def free_top_def free_loop.simps sbrk_def memcpy_def heap2_def
      heap_mid_def heap_lost_def sizeof_header_t_def set_next_def Let_def)

section \<open>Allocate from the registry\<close>

text \<open>
  Claim C1.  \<open>malloc(0)\<close> returns \<open>NULL\<close> and changes nothing.  For a request that is
  not 0, let the registry (the chain from \<open>head\<close>) be \<open>xs @ h # ys\<close> where no block of
  \<open>xs\<close> is free and large enough and \<open>h\<close> is: then \<open>malloc\<close> returns the payload
  address of \<open>h\<close>, the header of \<open>h\<close> has \<open>is_free = 0\<close> with its size and its link as
  before, and no other header, nor \<open>head\<close>, \<open>tail\<close>, the break or any payload byte,
  has changed; the registry is the same list of blocks.
\<close>

theorem malloc_first_fit:
  "malloc s 0 = Some (0, s) \<and>
   (size' \<noteq> 0 \<and> chain (hdr s) (head s) (xs @ h # ys) \<and>
    (\<forall>x\<in>set xs. \<not> is_fit (hdr s) size' x) \<and> is_fit (hdr s) size' h \<longrightarrow>
    (\<exists>s'. malloc s size' = Some (payload h, s') \<and>
          s_is_free (hdr s' h) = 0 \<and> s_size (hdr s' h) = s_size (hdr s h) \<and>
          s_next (hdr s' h) = s_next (hdr s h) \<and> (\<forall>b. b \<noteq> h \<longrightarrow> hdr s' b = hdr s b) \<and>
          head s' = head s \<and> tail s' = tail s \<and> brk s' = brk s \<and> bytes s' = bytes s \<and>
          chain (hdr s') (head s') (xs @ h # ys)))"
proof (intro conjI impI)
  show "malloc s 0 = Some (0, s)" by (simp add: malloc_def)
next
  assume a: "size' \<noteq> 0 \<and> chain (hdr s) (head s) (xs @ h # ys) \<and>
    (\<forall>x\<in>set xs. \<not> is_fit (hdr s) size' x) \<and> is_fit (hdr s) size' h"
  then have hit: "get_free_block s size' = Some h"
    by (intro get_free_block_first [of s xs h ys]) simp_all
  from a have "0 \<notin> set (xs @ h # ys)" using chain_nonzero by blast
  then have "h \<noteq> 0" by auto
  with a hit have res: "malloc s size' = Some (payload h, set_is_free s h 0)"
    by (simp add: malloc_def payload_def)
  have hd: "head (set_is_free s h 0) = head s" by (simp add: set_is_free_def)
  from a have "chain (hdr (set_is_free s h 0)) (head (set_is_free s h 0)) (xs @ h # ys)"
    by (simp only: chain_set_is_free hd)
  with res show "\<exists>s'. malloc s size' = Some (payload h, s') \<and>
          s_is_free (hdr s' h) = 0 \<and> s_size (hdr s' h) = s_size (hdr s h) \<and>
          s_next (hdr s' h) = s_next (hdr s h) \<and> (\<forall>b. b \<noteq> h \<longrightarrow> hdr s' b = hdr s b) \<and>
          head s' = head s \<and> tail s' = tail s \<and> brk s' = brk s \<and> bytes s' = bytes s \<and>
          chain (hdr s') (head s') (xs @ h # ys)"
    by (simp add: set_is_free_def)
qed

theorem malloc_first_fit_witness:
  "(50 :: size_t) \<noteq> 0 \<and> chain (hdr heap3) (head heap3) ([4096] @ 4184 # []) \<and>
   \<not> is_fit (hdr heap3) 50 4096 \<and> is_fit (hdr heap3) 50 4184 \<and>
   (\<exists>s'. malloc heap3 50 = Some (4208, s') \<and> s_is_free (hdr s' 4184) = 0 \<and>
         s_size (hdr s' 4184) = 128)"
proof -
  have pre: "(50 :: size_t) \<noteq> 0 \<and> chain (hdr heap3) (head heap3) ([4096] @ 4184 # []) \<and>
   (\<forall>x\<in>set [4096]. \<not> is_fit (hdr heap3) 50 x) \<and> is_fit (hdr heap3) 50 4184"
    by (simp add: heap3_def heap2_def set_is_free_def is_fit_def)
  have p: "payload 4184 = 4208" and sz: "s_size (hdr heap3 4184) = 128"
    by (simp_all add: payload_def sizeof_header_t_def heap3_def heap2_def set_is_free_def)
  from malloc_first_fit [of heap3 50 "[4096]" 4184 "[]"] pre
  show ?thesis unfolding p sz by auto
qed

section \<open>Reallocate in the cases that need no new block\<close>

text \<open>
  Claim C7.  When the pointer is \<open>NULL\<close> or the new size is 0, \<open>realloc\<close> is
  \<open>malloc\<close> of the new size: the same result and the same state afterwards.
\<close>

theorem realloc_as_malloc:
  "block = 0 \<or> size' = 0 \<Longrightarrow> realloc s block size' = malloc s size'"
  by (simp add: realloc_def)

theorem realloc_as_malloc_witness:
  "((0::addr) = 0 \<or> (10::size_t) = 0) \<and> realloc heap0 0 10 = malloc heap0 10"
  using realloc_as_malloc [of 0 10 heap0] by simp

text \<open>
  Claim C5.  For a pointer that is not \<open>NULL\<close> and a new size that is not 0 and not
  above the size recorded in the header before the pointer, \<open>realloc\<close> returns the
  pointer itself and the whole state (headers, registry, payload bytes, break) is the
  one it started from.
\<close>

theorem realloc_enough_room:
  "block \<noteq> 0 \<Longrightarrow> size' \<noteq> 0 \<Longrightarrow> size' \<le> s_size (hdr s (block - sizeof_header_t)) \<Longrightarrow>
   realloc s block size' = Some (block, s)"
  by (simp add: realloc_def)

theorem realloc_enough_room_witness:
  "(4208::addr) \<noteq> 0 \<and> (100::size_t) \<noteq> 0 \<and>
   (100::size_t) \<le> s_size (hdr heap2 (4208 - sizeof_header_t)) \<and>
   realloc heap2 4208 100 = Some (4208, heap2)"
proof -
  have fits: "(100::size_t) \<le> s_size (hdr heap2 (4208 - sizeof_header_t))"
    by (simp add: heap2_def sizeof_header_t_def)
  from realloc_enough_room [of 4208 100 heap2, OF _ _ fits] fits
  show ?thesis by simp
qed

section \<open>Allocate when the system has no memory left\<close>

text \<open>
  Claim C8.  When the request is not 0, the scan finds no block (\<open>get_free_block\<close>
  returns \<open>NULL\<close>) and \<open>sbrk\<close> answers \<open>(void * ) -1\<close>, \<open>malloc\<close> returns \<open>NULL\<close> and
  \<open>head\<close>, \<open>tail\<close>, every header and every payload byte are as before the call.
\<close>

theorem malloc_sbrk_failure:
  "size' \<noteq> 0 \<Longrightarrow> get_free_block s size' = Some 0 \<Longrightarrow>
   sbrk s (sizeof_header_t + size') = (- 1, s') \<Longrightarrow>
   malloc s size' = Some (0, s') \<and> head s' = head s \<and> tail s' = tail s \<and>
   hdr s' = hdr s \<and> bytes s' = bytes s"
  by (auto simp add: malloc_def malloc_extend_def sbrk_def Let_def split: if_splits)

theorem malloc_sbrk_failure_witness:
  "(5000::size_t) \<noteq> 0 \<and> get_free_block heap0 5000 = Some 0 \<and>
   sbrk heap0 (sizeof_header_t + 5000) = (- 1, heap0) \<and>
   malloc heap0 5000 = Some (0, heap0)"
proof -
  have scan: "get_free_block heap0 5000 = Some 0"
    by (simp add: get_free_block_def get_free_block_loop.simps heap0_def)
  have full: "sbrk heap0 (sizeof_header_t + 5000) = (- 1, heap0)"
    by (simp add: sbrk_def heap0_def sizeof_header_t_def)
  from malloc_sbrk_failure [of 5000 heap0 heap0, OF _ scan full] scan full
  show ?thesis by simp
qed

section \<open>Release\<close>

text \<open>
  Claim C2.  \<open>free(NULL)\<close> changes nothing.  Let the heap be well formed with registry
  \<open>bs\<close> and let \<open>h\<close> be a block of it, released through its payload address.  When the
  payload of \<open>h\<close> ends at the program break, \<open>h\<close> is the last block of the registry and
  is removed from it (the registry that remains is \<open>butlast bs\<close>, with \<open>head\<close> and
  \<open>tail\<close> \<open>NULL\<close> when \<open>h\<close> was the only block), the break goes down by exactly the
  recorded size plus the size of a header, and sizes and flags of the other blocks
  stay.  Otherwise only the flag of \<open>h\<close> changes, to 1, and the registry is the list
  \<open>bs\<close> as before.
\<close>

theorem free_spec:
  "free s 0 = Some s \<and>
   (heap_ok s bs \<and> h \<in> set bs \<and> payload h + s_size (hdr s h) = brk s \<longrightarrow>
      (\<exists>s'. free s (payload h) = Some s' \<and> bs = butlast bs @ [h] \<and>
            heap_ok s' (butlast bs) \<and> (bs = [h] \<longrightarrow> head s' = 0 \<and> tail s' = 0) \<and>
            uint (brk s) - uint (brk s') = uint (s_size (hdr s h)) + uint sizeof_header_t \<and>
            bytes s' = bytes s \<and>
            (\<forall>b\<in>set (butlast bs). s_size (hdr s' b) = s_size (hdr s b) \<and>
                                   s_is_free (hdr s' b) = s_is_free (hdr s b)))) \<and>
   (heap_ok s bs \<and> h \<in> set bs \<and> payload h + s_size (hdr s h) \<noteq> brk s \<longrightarrow>
      (\<exists>s'. free s (payload h) = Some s' \<and> heap_ok s' bs \<and>
            s_is_free (hdr s' h) = 1 \<and> s_size (hdr s' h) = s_size (hdr s h) \<and>
            s_next (hdr s' h) = s_next (hdr s h) \<and>
            (\<forall>b. b \<noteq> h \<longrightarrow> hdr s' b = hdr s b) \<and>
            head s' = head s \<and> tail s' = tail s \<and> brk s' = brk s \<and> bytes s' = bytes s))"
proof (intro conjI impI)
  show "free s 0 = Some s" by (simp add: free_def)
next
  assume a: "heap_ok s bs \<and> h \<in> set bs \<and> payload h + s_size (hdr s h) = brk s"
  then have ok: "heap_ok s bs" and h: "h \<in> set bs"
    and top: "payload h + s_size (hdr s h) = brk s" by simp_all
  from top top_block_iff [OF ok h] obtain xs where bs: "bs = xs @ [h]" by auto
  have run: "free s (payload h) = free_top s h"
    by (rule free_at_top [OF payload_nonzero [OF ok h] top])
  from ok bs have ok': "heap_ok s (xs @ [h])" by simp
  have amount: "uint (brk s) - uint h = uint (s_size (hdr s h)) + uint sizeof_header_t"
    by (rule top_block_shrink(2) [OF ok', of s]) simp_all
  show "\<exists>s'. free s (payload h) = Some s' \<and> bs = butlast bs @ [h] \<and>
            heap_ok s' (butlast bs) \<and> (bs = [h] \<longrightarrow> head s' = 0 \<and> tail s' = 0) \<and>
            uint (brk s) - uint (brk s') = uint (s_size (hdr s h)) + uint sizeof_header_t \<and>
            bytes s' = bytes s \<and>
            (\<forall>b\<in>set (butlast bs). s_size (hdr s' b) = s_size (hdr s b) \<and>
                                   s_is_free (hdr s' b) = s_is_free (hdr s b))"
  proof (cases xs rule: rev_cases)
    case Nil
    with ok' have one: "heap_ok s [h]" by simp
    from free_top_single [OF one] amount show ?thesis
      unfolding run bs Nil by (simp add: heap_ok_def)
  next
    case (snoc ys x)
    with ok' have many: "heap_ok s (ys @ [x, h])" by simp
    have bl: "butlast ((ys @ [x]) @ [h]) = ys @ [x]" by (simp only: butlast_snoc)
    from free_top_many [OF many] amount show ?thesis
      unfolding run bs snoc bl by (simp add: set_next_def)
  qed
next
  assume a: "heap_ok s bs \<and> h \<in> set bs \<and> payload h + s_size (hdr s h) \<noteq> brk s"
  then have ok: "heap_ok s bs" and h: "h \<in> set bs"
    and low: "payload h + s_size (hdr s h) \<noteq> brk s" by simp_all
  from free_not_top [OF ok h low] heap_ok_set_is_free [OF ok, of h 1]
  show "\<exists>s'. free s (payload h) = Some s' \<and> heap_ok s' bs \<and>
            s_is_free (hdr s' h) = 1 \<and> s_size (hdr s' h) = s_size (hdr s h) \<and>
            s_next (hdr s' h) = s_next (hdr s h) \<and>
            (\<forall>b. b \<noteq> h \<longrightarrow> hdr s' b = hdr s b) \<and>
            head s' = head s \<and> tail s' = tail s \<and> brk s' = brk s \<and> bytes s' = bytes s"
    by (simp add: set_is_free_def)
qed

theorem free_spec_witness:
  "heap_ok heap2 [4096, 4184] \<and> 4184 \<in> set [4096, 4184 :: addr] \<and>
   payload 4184 + s_size (hdr heap2 4184) = brk heap2 \<and>
   (\<exists>s'. free heap2 4208 = Some s' \<and> heap_ok s' [4096] \<and>
         uint (brk heap2) - uint (brk s') = 152) \<and>
   4096 \<in> set [4096, 4184 :: addr] \<and>
   payload 4096 + s_size (hdr heap2 4096) \<noteq> brk heap2 \<and>
   (\<exists>s'. free heap2 4120 = Some s' \<and> heap_ok s' [4096, 4184] \<and>
         s_is_free (hdr s' 4096) = 1)"
proof -
  have top: "payload 4184 + s_size (hdr heap2 4184) = brk heap2"
    and low: "payload 4096 + s_size (hdr heap2 4096) \<noteq> brk heap2"
    and p: "payload 4184 = 4208" "payload 4096 = 4120"
    and sz: "uint (s_size (hdr heap2 4184)) + uint sizeof_header_t = 152"
    by (simp_all add: payload_def sizeof_header_t_def heap2_def)
  have m: "4184 \<in> set [4096, 4184 :: addr]" "4096 \<in> set [4096, 4184 :: addr]" by simp_all
  from free_spec [of heap2 "[4096, 4184]" 4184] heap2_ok m(1) top
  have a: "\<exists>s'. free heap2 4208 = Some s' \<and> heap_ok s' [4096] \<and>
         uint (brk heap2) - uint (brk s') = 152"
    unfolding p sz by auto
  from free_spec [of heap2 "[4096, 4184]" 4096] heap2_ok m(2) low
  have b: "\<exists>s'. free heap2 4120 = Some s' \<and> heap_ok s' [4096, 4184] \<and>
         s_is_free (hdr s' 4096) = 1"
    unfolding p by auto
  from heap2_ok m top low a b show ?thesis by simp
qed

section \<open>Reallocate to a larger size\<close>

text \<open>
  Claim C6.  When \<open>realloc\<close> must grow a block it should allocate a new block of the
  new size, copy the old contents into it, release the old block and return the new
  address; when the allocation fails it should return \<open>NULL\<close> and leave the old block
  as it is.  For requests that fit this is lemma \<open>realloc_grow_fits\<close>.  With a total
  size that wraps it fails, on a well-formed heap: in \<open>heap2\<close>, \<open>realloc\<close> of the first
  block (payload 4120, 64 bytes) to \<open>SIZE_MAX - 175\<close> bytes makes \<open>malloc\<close> call \<open>sbrk\<close>
  with \<open>-152\<close>, which lowers the break to 4184 and returns 4336, where the new header
  is written and linked.  The old payload now ends at the break, so \<open>free\<close> takes the
  branch for the top of the heap: it unlinks \<open>tail\<close>, which is the new block, and
  lowers the break to 4096.  \<open>realloc\<close> returns 4360, the registry is the two old
  blocks, and the old block is still marked in use.
\<close>

theorem realloc_wrapping_request_keeps_old_block:
  "heap_ok heap2 [4096, 4184] \<and> s_size (hdr heap2 4096) < - 176 \<and>
   payload 4096 = 4120 \<and>
   realloc heap2 4120 (- 176) = Some (4360, heap_lost) \<and>
   chain (hdr heap_lost) (head heap_lost) [4096, 4184] \<and> tail heap_lost = 4184 \<and>
   s_is_free (hdr heap_lost 4096) = 0 \<and> brk heap_lost = 4096"
proof -
  have old: "s_size (hdr heap2 (4120 - sizeof_header_t)) = 64"
    "s_size (hdr heap_mid (4120 - sizeof_header_t)) = 64"
    by (simp_all add: heap2_def heap_mid_def sizeof_header_t_def)
  have run: "realloc heap2 4120 (- 176) = Some (4360, heap_lost)"
    by (simp add: realloc_def Let_def old malloc_mid free_lost)
  have "s_size (hdr heap2 4096) < - 176" and "payload 4096 = 4120"
    by (simp_all add: heap2_def payload_def sizeof_header_t_def)
  moreover have "chain (hdr heap_lost) (head heap_lost) [4096, 4184] \<and>
      tail heap_lost = 4184 \<and> s_is_free (hdr heap_lost 4096) = 0 \<and> brk heap_lost = 4096"
    by (simp add: heap_lost_def heap_mid_def heap2_def memcpy_def)
  ultimately show ?thesis using heap2_ok run by simp
qed

section \<open>AllocateZeroed\<close>

text \<open>
  Claim C4, as stated, does not hold: with both arguments different from 0 and a
  product that does not overflow, \<open>calloc\<close> still returns \<open>NULL\<close> when \<open>malloc\<close> does.
  On the empty heap that may grow by 4096 bytes, \<open>calloc(1, 5000)\<close> returns \<open>NULL\<close>.
\<close>

theorem calloc_without_memory:
  "(1 :: size_t) \<noteq> 0 \<and> (5000 :: size_t) \<noteq> 0 \<and>
   unat (1 :: size_t) * unat (5000 :: size_t) < 2 ^ 64 \<and>
   calloc heap0 1 5000 = Some (0, heap0)"
proof -
  have "get_free_block heap0 5000 = Some 0"
    by (simp add: get_free_block_def get_free_block_loop.simps heap0_def)
  moreover have "malloc_extend heap0 5000 = (0, heap0)"
    by (simp add: malloc_extend_def sbrk_def heap0_def sizeof_header_t_def)
  ultimately have "malloc heap0 5000 = Some (0, heap0)" by (simp add: malloc_def)
  then show ?thesis by (simp add: calloc_def)
qed

text \<open>
  Claim C4, amended.  \<open>calloc\<close> returns \<open>NULL\<close>, changing nothing, when an argument is 0
  or the product of the arguments does not fit in \<open>size_t\<close>.  Otherwise the product is
  computed exactly and \<open>calloc\<close> returns what \<open>malloc\<close> of the product returns, on a
  well-formed heap and for a request that fits: \<open>NULL\<close> with the state unchanged when
  \<open>malloc\<close> returns \<open>NULL\<close>, and else the address from \<open>malloc\<close>, where each of the
  \<open>num * nsize\<close> bytes from that address is 0, the region lies inside the heap and
  headers, \<open>head\<close>, \<open>tail\<close> and break are as \<open>malloc\<close> left them.
\<close>

theorem calloc_spec:
  "(num = 0 \<or> nsize = 0 \<or> 2 ^ 64 \<le> unat num * unat nsize \<longrightarrow>
      calloc s num nsize = Some (0, s)) \<and>
   (num \<noteq> 0 \<and> nsize \<noteq> 0 \<and> unat num * unat nsize < 2 ^ 64 \<and>
    heap_ok s bs \<and> request_fits (num * nsize) \<longrightarrow>
      unat (num * nsize) = unat num * unat nsize \<and>
      (\<exists>ret s1. malloc s (num * nsize) = Some (ret, s1) \<and>
         (ret = 0 \<longrightarrow> calloc s num nsize = Some (0, s)) \<and>
         (ret \<noteq> 0 \<longrightarrow>
           (\<exists>s'. calloc s num nsize = Some (ret, s') \<and>
                 (\<forall>i. i < num * nsize \<longrightarrow> bytes s' (ret + i) = 0) \<and>
                 uint (heap_start s') \<le> uint ret \<and>
                 uint ret + uint (num * nsize) \<le> uint (brk s') \<and>
                 hdr s' = hdr s1 \<and> head s' = head s1 \<and> tail s' = tail s1 \<and>
                 brk s' = brk s1))))"
proof (intro conjI impI)
  assume "num = 0 \<or> nsize = 0 \<or> 2 ^ 64 \<le> unat num * unat nsize"
  then show "calloc s num nsize = Some (0, s)"
    using calloc_overflow_check [of num nsize] by (auto simp: calloc_def Let_def)
next
  assume a: "num \<noteq> 0 \<and> nsize \<noteq> 0 \<and> unat num * unat nsize < 2 ^ 64 \<and>
    heap_ok s bs \<and> request_fits (num * nsize)"
  then show "unat (num * nsize) = unat num * unat nsize"
    using unat_mult_lem [of num nsize] by simp
next
  assume a: "num \<noteq> 0 \<and> nsize \<noteq> 0 \<and> unat num * unat nsize < 2 ^ 64 \<and>
    heap_ok s bs \<and> request_fits (num * nsize)"
  then have nz: "num \<noteq> 0" "nsize \<noteq> 0" and small: "unat num * unat nsize < 2 ^ 64"
    and ok: "heap_ok s bs" and fits: "request_fits (num * nsize)" by simp_all
  from calloc_overflow_check [OF nz(1), of nsize] small
  have chk: "nsize = (num * nsize) div num" by simp
  from malloc_summary [OF ok, of "num * nsize"] obtain ret s1 where
    m: "malloc s (num * nsize) = Some (ret, s1)" and null: "ret = 0 \<longrightarrow> s1 = s" by blast
  have run: "calloc s num nsize =
      (if ret = 0 then Some (0, s1) else Some (ret, memset s1 ret 0 (num * nsize)))"
    using nz chk m by (simp add: calloc_def Let_def)
  have fail: "ret = 0 \<longrightarrow> calloc s num nsize = Some (0, s)"
    using run null by simp
  have succ: "ret \<noteq> 0 \<longrightarrow>
           (\<exists>s'. calloc s num nsize = Some (ret, s') \<and>
                 (\<forall>i. i < num * nsize \<longrightarrow> bytes s' (ret + i) = 0) \<and>
                 uint (heap_start s') \<le> uint ret \<and>
                 uint ret + uint (num * nsize) \<le> uint (brk s') \<and>
                 hdr s' = hdr s1 \<and> head s' = head s1 \<and> tail s' = tail s1 \<and>
                 brk s' = brk s1)"
  proof
    assume r: "ret \<noteq> 0"
    from malloc_ok [OF ok fits m r] obtain bs' h where ok1: "heap_ok s1 bs'"
      and h: "h \<in> set bs'" and ret: "ret = payload h"
      and big: "num * nsize \<le> s_size (hdr s1 h)" by blast
    note mem = heap_ok_member [OF ok1 h]
    from payload_uint(1) [OF mem(3,4)] have pu: "uint ret = uint h + 24" by (simp add: ret)
    from big have "uint (num * nsize) \<le> uint (s_size (hdr s1 h))" by (simp add: word_le_def)
    with mem pu have inside: "uint (heap_start s1) \<le> uint ret"
      "uint ret + uint (num * nsize) \<le> uint (brk s1)" by linarith+
    let ?z = "memset s1 ret 0 (num * nsize)"
    have "calloc s num nsize = Some (ret, ?z)" using run r by simp
    moreover have "\<forall>i. i < num * nsize \<longrightarrow> bytes ?z (ret + i) = 0"
      by (simp add: bytes_memset)
    moreover have "hdr ?z = hdr s1 \<and> head ?z = head s1 \<and> tail ?z = tail s1 \<and>
                 brk ?z = brk s1 \<and> heap_start ?z = heap_start s1"
      by (simp add: memset_def)
    ultimately show "\<exists>s'. calloc s num nsize = Some (ret, s') \<and>
                 (\<forall>i. i < num * nsize \<longrightarrow> bytes s' (ret + i) = 0) \<and>
                 uint (heap_start s') \<le> uint ret \<and>
                 uint ret + uint (num * nsize) \<le> uint (brk s') \<and>
                 hdr s' = hdr s1 \<and> head s' = head s1 \<and> tail s' = tail s1 \<and>
                 brk s' = brk s1"
      using inside by (intro exI [of _ ?z]) simp
  qed
  from m fail succ show "\<exists>ret s1. malloc s (num * nsize) = Some (ret, s1) \<and>
         (ret = 0 \<longrightarrow> calloc s num nsize = Some (0, s)) \<and>
         (ret \<noteq> 0 \<longrightarrow>
           (\<exists>s'. calloc s num nsize = Some (ret, s') \<and>
                 (\<forall>i. i < num * nsize \<longrightarrow> bytes s' (ret + i) = 0) \<and>
                 uint (heap_start s') \<le> uint ret \<and>
                 uint ret + uint (num * nsize) \<le> uint (brk s') \<and>
                 hdr s' = hdr s1 \<and> head s' = head s1 \<and> tail s' = tail s1 \<and>
                 brk s' = brk s1))"
    by blast
qed

theorem calloc_spec_witness:
  "((0 :: size_t) = 0 \<or> (7 :: size_t) = 0 \<or> 2 ^ 64 \<le> unat (0 :: size_t) * unat (7 :: size_t)) \<and>
   calloc heap1 0 7 = Some (0, heap1) \<and>
   (5 :: size_t) \<noteq> 0 \<and> (10 :: size_t) \<noteq> 0 \<and>
   unat (5 :: size_t) * unat (10 :: size_t) < 2 ^ 64 \<and>
   heap_ok heap1 [4096, 4184] \<and> request_fits (5 * 10) \<and>
   bytes heap1 4120 = 65 \<and>
   (\<exists>s'. calloc heap1 5 10 = Some (4120, s') \<and> bytes s' 4120 = 0 \<and> bytes s' 4169 = 0)"
proof -
  have z: "calloc heap1 0 7 = Some (0, heap1)"
    using calloc_spec [of 0 7 heap1 "[]"] by simp
  have fits: "request_fits (5 * 10)" by (simp add: request_fits_def sizeof_header_t_def)
  have small: "unat (5 :: size_t) * unat (10 :: size_t) < 2 ^ 64" by simp
  have before: "bytes heap1 4120 = 65" by (simp add: heap1_def heap2_def set_is_free_def)
  have "get_free_block heap1 50 = Some 4096"
    by (simp add: get_free_block_def get_free_block_loop.simps heap1_def heap2_def
        set_is_free_def)
  then have m: "\<exists>s1. malloc heap1 (5 * 10) = Some (4120, s1)"
    by (simp add: malloc_def sizeof_header_t_def)
  from calloc_spec [of 5 10 heap1 "[4096, 4184]"] heap1_ok fits small
  obtain ret s1 where r: "malloc heap1 (5 * 10) = Some (ret, s1)"
    and s: "ret \<noteq> 0 \<longrightarrow> (\<exists>s'. calloc heap1 5 10 = Some (ret, s') \<and>
                 (\<forall>i. i < 5 * 10 \<longrightarrow> bytes s' (ret + i) = 0))"
    by auto
  from r m have "ret = 4120" by auto
  with s obtain s' where res: "calloc heap1 5 10 = Some (4120, s')"
    and zero: "\<forall>i. i < 5 * 10 \<longrightarrow> bytes s' (4120 + i) = 0" by auto
  from zero [rule_format, of 0] zero [rule_format, of 49]
  have "bytes s' 4120 = 0" and "bytes s' 4169 = 0" by simp_all
  with z fits small before heap1_ok res show ?thesis by simp
qed

section \<open>Requests so large that the total size wraps around\<close>

text \<open>
  Claim C3.  After a successful \<open>malloc(n)\<close> the \<open>n\<close> bytes from the returned address
  should be heap memory that no other block uses.  For requests that fit this is
  lemma \<open>malloc_region\<close>.  But \<open>malloc\<close> adds \<open>sizeof(header_t)\<close> to the request in
  \<open>size_t\<close> and does not test for wrap-around: on the empty heap, \<open>malloc(SIZE_MAX)\<close>
  asks \<open>sbrk\<close> for 23 bytes, records a block of \<open>SIZE_MAX\<close> bytes and returns the
  address 4120, which is already past the new break 4119.
\<close>

theorem malloc_size_max_past_break:
  "malloc heap0 (- 1) = Some (4120, heap_short) \<and> brk heap_short = 4119 \<and>
   s_size (hdr heap_short 4096) = - 1 \<and> s_is_free (hdr heap_short 4096) = 0"
  using malloc_short by (simp add: heap_short_def)

text \<open>
  Claim C9.  The blocks of the registry should be chained in strictly increasing
  address order, each new block linked after the last one.  For requests that fit
  this is lemma \<open>heap_ok_sorted\<close> with \<open>malloc_heap_ok\<close> and \<open>free_heap_ok\<close>.  With a
  total size that wraps to 0 it fails: on the empty heap, \<open>malloc(SIZE_MAX - 23)\<close>
  calls \<open>sbrk(0)\<close>, so the break stays at 4096; the following \<open>malloc(1)\<close> gets the
  same address from \<open>sbrk\<close>, writes its header over the first one and links the block
  after itself.  Both calls return 4120, and the successor of the block at 4096 is
  the block at 4096.
\<close>

theorem malloc_links_block_to_itself:
  "malloc heap0 (- 24) = Some (4120, heap_wrapped) \<and>
   malloc heap_wrapped 1 = Some (4120, heap_looped) \<and>
   head heap_looped = 4096 \<and> s_next (hdr heap_looped (head heap_looped)) = 4096"
  using malloc_wrapped malloc_looped by (simp add: heap_looped_def)

text \<open>
  Claim C10.  \<open>head\<close> and \<open>tail\<close> should be \<open>NULL\<close> together, \<open>tail\<close> should be reachable
  from \<open>head\<close>, and the link of \<open>tail\<close> should be \<open>NULL\<close>.  For requests that fit this
  is lemma \<open>heap_ok_tail_link\<close> with \<open>heap_ok_ends\<close>, \<open>malloc_heap_ok\<close> and
  \<open>free_heap_ok\<close>.  After the same two calls, \<open>malloc(SIZE_MAX - 23)\<close> and
  \<open>malloc(1)\<close> on the empty heap, \<open>tail\<close> is the block at 4096 and its link is not
  \<open>NULL\<close> but 4096 again; the walk from \<open>head\<close> never reaches \<open>NULL\<close>, and the next
  call, \<open>malloc(2)\<close>, does not return.
\<close>

theorem malloc_leaves_tail_linked:
  "malloc heap0 (- 24) = Some (4120, heap_wrapped) \<and>
   malloc heap_wrapped 1 = Some (4120, heap_looped) \<and>
   tail heap_looped = 4096 \<and> s_next (hdr heap_looped (tail heap_looped)) = 4096 \<and>
   malloc heap_looped 2 = None"
  using malloc_wrapped malloc_looped malloc_never_returns by (simp add: heap_looped_def)

end
